theory Spec2Isabelle
  imports Complex_Main
begin

section \<open>JavaScript numbers\<close>

text \<open>
  The solver computes on JavaScript numbers. They are modelled as the extended reals
  with a not-a-number value: a finite value is an exact real, so the model follows
  the control flow and the algebra of the code. Comparisons with \<open>NaN\<close> are
  false, as in IEEE 754. The rounding of doubles is left out, except in the response
  sampler, whose choice of points depends on it and which is modelled a second time
  with each of its operations rounded. Overflow is modelled in the Stehfest
  generator, whose products can leave the range of doubles, and left out elsewhere.
  Underflow and the sign of zero are left out (a division of a non-zero value by zero
  gives the infinity of the dividend's sign).
\<close>

datatype jsnum = Fin real | PInf | NInf | NaN

instantiation jsnum :: "{zero, one, uminus, plus, minus, times, inverse, abs, ord}"
begin

definition zero_jsnum :: jsnum where "zero_jsnum = Fin 0"

definition one_jsnum :: jsnum where "one_jsnum = Fin 1"

fun uminus_jsnum :: "jsnum \<Rightarrow> jsnum" where
  "uminus_jsnum (Fin a) = Fin (- a)"
| "uminus_jsnum PInf = NInf"
| "uminus_jsnum NInf = PInf"
| "uminus_jsnum NaN = NaN"

fun plus_jsnum :: "jsnum \<Rightarrow> jsnum \<Rightarrow> jsnum" where
  "plus_jsnum (Fin a) (Fin b) = Fin (a + b)"
| "plus_jsnum NaN y = NaN"
| "plus_jsnum x NaN = NaN"
| "plus_jsnum PInf NInf = NaN"
| "plus_jsnum NInf PInf = NaN"
| "plus_jsnum PInf y = PInf"
| "plus_jsnum x PInf = PInf"
| "plus_jsnum NInf y = NInf"
| "plus_jsnum x NInf = NInf"

definition minus_jsnum :: "jsnum \<Rightarrow> jsnum \<Rightarrow> jsnum" where
  "minus_jsnum x y = x + (- y)"

fun times_jsnum :: "jsnum \<Rightarrow> jsnum \<Rightarrow> jsnum" where
  "times_jsnum (Fin a) (Fin b) = Fin (a * b)"
| "times_jsnum NaN y = NaN"
| "times_jsnum x NaN = NaN"
| "times_jsnum PInf (Fin b) = (if b = 0 then NaN else if 0 < b then PInf else NInf)"
| "times_jsnum NInf (Fin b) = (if b = 0 then NaN else if 0 < b then NInf else PInf)"
| "times_jsnum (Fin a) PInf = (if a = 0 then NaN else if 0 < a then PInf else NInf)"
| "times_jsnum (Fin a) NInf = (if a = 0 then NaN else if 0 < a then NInf else PInf)"
| "times_jsnum PInf PInf = PInf"
| "times_jsnum PInf NInf = NInf"
| "times_jsnum NInf PInf = NInf"
| "times_jsnum NInf NInf = PInf"

fun divide_jsnum :: "jsnum \<Rightarrow> jsnum \<Rightarrow> jsnum" where
  "divide_jsnum (Fin a) (Fin b) =
     (if b = 0 then (if a = 0 then NaN else if 0 < a then PInf else NInf) else Fin (a / b))"
| "divide_jsnum NaN y = NaN"
| "divide_jsnum x NaN = NaN"
| "divide_jsnum (Fin a) PInf = Fin 0"
| "divide_jsnum (Fin a) NInf = Fin 0"
| "divide_jsnum PInf (Fin b) = (if 0 \<le> b then PInf else NInf)"
| "divide_jsnum NInf (Fin b) = (if 0 \<le> b then NInf else PInf)"
| "divide_jsnum PInf PInf = NaN"
| "divide_jsnum PInf NInf = NaN"
| "divide_jsnum NInf PInf = NaN"
| "divide_jsnum NInf NInf = NaN"

definition inverse_jsnum :: "jsnum \<Rightarrow> jsnum" where
  "inverse_jsnum x = Fin 1 div x"

fun abs_jsnum :: "jsnum \<Rightarrow> jsnum" where
  "abs_jsnum (Fin a) = Fin \<bar>a\<bar>"
| "abs_jsnum PInf = PInf"
| "abs_jsnum NInf = PInf"
| "abs_jsnum NaN = NaN"

fun less_jsnum :: "jsnum \<Rightarrow> jsnum \<Rightarrow> bool" where
  "less_jsnum (Fin a) (Fin b) = (a < b)"
| "less_jsnum NaN y = False"
| "less_jsnum x NaN = False"
| "less_jsnum x NInf = False"
| "less_jsnum PInf y = False"
| "less_jsnum NInf y = True"
| "less_jsnum x PInf = True"

fun less_eq_jsnum :: "jsnum \<Rightarrow> jsnum \<Rightarrow> bool" where
  "less_eq_jsnum (Fin a) (Fin b) = (a \<le> b)"
| "less_eq_jsnum NaN y = False"
| "less_eq_jsnum x NaN = False"
| "less_eq_jsnum NInf y = True"
| "less_eq_jsnum x PInf = True"
| "less_eq_jsnum PInf y = False"
| "less_eq_jsnum x NInf = False"

instance ..

end


text \<open>\<^verbatim>\<open>x === y\<close> on numbers: \<open>NaN\<close> is not equal to itself.\<close>

definition strict_eq :: "jsnum \<Rightarrow> jsnum \<Rightarrow> bool" where
  "strict_eq x y = (x \<noteq> NaN \<and> y \<noteq> NaN \<and> x = y)"

instance jsnum :: comm_monoid_add
proof
  fix x y z :: jsnum
  show "x + y = y + x"
    by (cases x; cases y; simp)
  show "(x + y) + z = x + (y + z)"
    by (cases x; cases y; cases z; simp)
  show "0 + x = x"
    unfolding zero_jsnum_def by (cases x; simp)
qed

section \<open>Impedance of a model tree\<close>

text \<open>
  A node of the model tree is a JavaScript object dispatched on its \<open>type\<close> field.
  The solver never reads the \<open>id\<close> field, which the model leaves out;
  \<open>Unrecognized\<close> stands for an object whose \<open>type\<close> is none of the four
  known strings.
\<close>

datatype node =
    Spring jsnum
  | Dashpot jsnum
  | Series "node list"
  | Parallel "node list"
  | Unrecognized

definition tiny :: jsnum where
  "tiny = Fin (1 / 10 ^ 30)"

text \<open>
  \<open>impedance\<close> with its two loops over the children: \<open>series_loop\<close> carries
  \<open>totalCompliance\<close> and returns what the series branch returns (the early
  \<open>return 0\<close> included), \<open>parallel_loop\<close> carries \<open>totalZ\<close>.
\<close>

fun impedance :: "node \<Rightarrow> jsnum \<Rightarrow> jsnum"
  and series_loop :: "node list \<Rightarrow> jsnum \<Rightarrow> jsnum \<Rightarrow> jsnum"
  and parallel_loop :: "node list \<Rightarrow> jsnum \<Rightarrow> jsnum \<Rightarrow> jsnum"
where
  "impedance (Spring E) s = E"
| "impedance (Dashpot eta) s = eta * s"
| "impedance (Series children) s = series_loop children s 0"
| "impedance (Parallel children) s = parallel_loop children s 0"
| "impedance Unrecognized s = 0"
| "series_loop [] s totalCompliance =
     (if strict_eq totalCompliance 0 then PInf else 1 / totalCompliance)"
| "series_loop (child # rest) s totalCompliance =
     (let z = impedance child s in
      if \<bar>z\<bar> < tiny then 0
      else series_loop rest s (totalCompliance + 1 / z))"
| "parallel_loop [] s totalZ = totalZ"
| "parallel_loop (child # rest) s totalZ =
     parallel_loop rest s (totalZ + impedance child s)"

text \<open>
  The reference definition, in the words of the specification: a spring returns
  \<open>E\<close>, a dashpot \<open>\<eta>\<cdot>s\<close>, a parallel node the sum of its children's
  impedances; a series node returns \<open>0\<close> if any child's impedance has magnitude
  below \<open>1e-30\<close>, \<open>+\<infinity>\<close> if the sum of the children's compliances is exactly
  \<open>0\<close>, and the reciprocal of that sum otherwise.
\<close>

fun impedance_ref :: "node \<Rightarrow> jsnum \<Rightarrow> jsnum" where
  "impedance_ref (Spring E) s = E"
| "impedance_ref (Dashpot eta) s = eta * s"
| "impedance_ref (Series children) s =
     (if list_ex (\<lambda>c. \<bar>impedance_ref c s\<bar> < tiny) children then 0
      else if sum_list (map (\<lambda>c. 1 / impedance_ref c s) children) = 0 then PInf
      else 1 / sum_list (map (\<lambda>c. 1 / impedance_ref c s) children))"
| "impedance_ref (Parallel children) s = sum_list (map (\<lambda>c. impedance_ref c s) children)"
| "impedance_ref Unrecognized s = 0"

text \<open>Trees built from the four known variants with positive moduli and viscosities.\<close>

fun positive_tree :: "node \<Rightarrow> bool" where
  "positive_tree (Spring E) = (0 < E)"
| "positive_tree (Dashpot eta) = (0 < eta)"
| "positive_tree (Series children) = list_all positive_tree children"
| "positive_tree (Parallel children) = list_all positive_tree children"
| "positive_tree Unrecognized = False"

section \<open>Stehfest coefficients\<close>

text \<open>
  The products of the generator leave the range of doubles when \<open>N\<close> is large
  (\<open>171!\<close> is beyond it), so the arithmetic of \<open>factorial\<close> and
  \<open>stehfestCoeffs\<close> is modelled with the overflow of doubles: a result of
  magnitude \<open>2\<^sup>1\<^sup>0\<^sup>2\<^sup>4 - 2\<^sup>9\<^sup>7\<^sup>0\<close> or more rounds to no finite double and
  \<open>ovf\<close> maps it to the infinity of its sign.
\<close>

definition double_overflow :: real where
  "double_overflow = 2 ^ 1024 - 2 ^ 970"

fun ovf :: "jsnum \<Rightarrow> jsnum" where
  "ovf (Fin x) =
     (if double_overflow \<le> x then PInf
      else if x \<le> - double_overflow then NInf
      else Fin x)"
| "ovf PInf = PInf"
| "ovf NInf = NInf"
| "ovf NaN = NaN"

declare ovf.simps [simp del]

text \<open>\<open>factorial\<close>: the loop \<^verbatim>\<open>for (let i = 2; i <= n; i++) r *= i\<close>.\<close>

function factorial_loop :: "int \<Rightarrow> int \<Rightarrow> jsnum \<Rightarrow> jsnum" where
  "factorial_loop n i r =
     (if i \<le> n then factorial_loop n (i + 1) (ovf (r * Fin (of_int i))) else r)"
  by pat_completeness auto
termination
  by (relation "measure (\<lambda>(n, i, r). nat (n + 1 - i))") auto

declare factorial_loop.simps [simp del]

definition factorial :: "int \<Rightarrow> jsnum" where
  "factorial n =
     (if n < 0 then PInf
      else if n \<le> 1 then 1
      else factorial_loop n 2 1)"

text \<open>
  \<open>stehfestCoeffs\<close> is modelled for the calls with an even \<open>N\<close> (the only call
  passes 12), where \<^verbatim>\<open>N / 2\<close> is the integer \<open>N div 2\<close>.
  \<open>stehfest_inner\<close> is the loop over \<open>k\<close> carrying \<open>sum\<close> (here \<open>sm\<close>),
  \<open>stehfest_outer\<close> the loop over \<open>i\<close> carrying the array \<open>V\<close>.
\<close>

function stehfest_inner :: "nat \<Rightarrow> nat \<Rightarrow> nat \<Rightarrow> nat \<Rightarrow> jsnum \<Rightarrow> jsnum" where
  "stehfest_inner N i kMax k sm =
     (if k \<le> kMax then
        (let num = ovf (ovf (Fin (real k ^ (N div 2))) * factorial (2 * int k));
             den = ovf (ovf (ovf (ovf (factorial (int (N div 2) - int k) *
                                       factorial (int k)) *
                                  factorial (int k - 1)) *
                             factorial (int i - int k)) *
                        factorial (2 * int k - int i))
         in stehfest_inner N i kMax (k + 1) (ovf (sm + ovf (num / den))))
      else sm)"
  by pat_completeness auto
termination
  by (relation "measure (\<lambda>(N, i, kMax, k, sm). kMax + 1 - k)") auto

declare stehfest_inner.simps [simp del]

function stehfest_outer :: "nat \<Rightarrow> nat \<Rightarrow> jsnum list \<Rightarrow> jsnum list" where
  "stehfest_outer N i V =
     (if i \<le> N then
        (let kMin = (i + 1) div 2;
             kMax = min i (N div 2);
             sm = stehfest_inner N i kMax kMin 0
         in stehfest_outer N (i + 1) (V[i - 1 := ovf (Fin ((- 1) ^ (i + N div 2)) * sm)]))
      else V)"
  by pat_completeness auto
termination
  by (relation "measure (\<lambda>(N, i, V). N + 1 - i)") auto

declare stehfest_outer.simps [simp del]

definition stehfestCoeffs :: "nat \<Rightarrow> jsnum list" where
  "stehfestCoeffs N = stehfest_outer N 1 (replicate N 0)"

text \<open>
  The weight formula as the specification writes it, with the lower summation bound
  \<open>\<lceil>(i+1)/2\<rceil>\<close>, and the same formula with the lower bound \<open>\<lfloor>(i+1)/2\<rfloor>\<close>.
\<close>

definition stehfest_term :: "nat \<Rightarrow> nat \<Rightarrow> nat \<Rightarrow> real" where
  "stehfest_term N i k =
     real k ^ (N div 2) * fact (2 * k) /
       (fact (N div 2 - k) * fact k * fact (k - 1) * fact (i - k) * fact (2 * k - i))"

definition stehfest_formula_ceiling :: "nat \<Rightarrow> nat \<Rightarrow> real" where
  "stehfest_formula_ceiling N i =
     (- 1) ^ (i + N div 2) *
       (\<Sum>k = nat \<lceil>(real i + 1) / 2\<rceil> .. min i (N div 2). stehfest_term N i k)"

definition stehfest_formula_floor :: "nat \<Rightarrow> nat \<Rightarrow> real" where
  "stehfest_formula_floor N i =
     (- 1) ^ (i + N div 2) *
       (\<Sum>k = nat \<lfloor>(real i + 1) / 2\<rfloor> .. min i (N div 2). stehfest_term N i k)"

section \<open>Inverse Laplace transform\<close>

definition STEHFEST_N :: nat where
  "STEHFEST_N = 12"

definition coeffs :: "jsnum list" where
  "coeffs = stehfestCoeffs STEHFEST_N"

definition LN2 :: jsnum where
  "LN2 = Fin (ln 2)"

function inverseLaplace_loop :: "(jsnum \<Rightarrow> jsnum) \<Rightarrow> jsnum \<Rightarrow> nat \<Rightarrow> jsnum \<Rightarrow> jsnum" where
  "inverseLaplace_loop F ln2_over_t i sm =
     (if i < STEHFEST_N then
        (let s = Fin (real (i + 1)) * ln2_over_t
         in inverseLaplace_loop F ln2_over_t (i + 1) (sm + coeffs ! i * F s))
      else sm)"
  by pat_completeness auto
termination
  by (relation "measure (\<lambda>(F, c, i, sm). STEHFEST_N - i)") auto

declare inverseLaplace_loop.simps [simp del]

definition inverseLaplace :: "(jsnum \<Rightarrow> jsnum) \<Rightarrow> jsnum \<Rightarrow> jsnum" where
  "inverseLaplace F t =
     (if t \<le> 0 then 0
      else (let ln2_over_t = LN2 / t
            in inverseLaplace_loop F ln2_over_t 0 0 * ln2_over_t))"

section \<open>Response at one time\<close>

text \<open>
  \<open>creep_F\<close> and \<open>relax_F\<close> are the arrow functions that \<open>creepAtTime\<close> and
  \<open>relaxAtTime\<close> pass to \<open>inverseLaplace\<close>.
\<close>

definition creep_F :: "node \<Rightarrow> jsnum \<Rightarrow> jsnum \<Rightarrow> jsnum" where
  "creep_F model sigma0 s =
     (let z = impedance model s
      in if strict_eq z 0 then Fin (10 ^ 30) else sigma0 / (s * z))"

definition creepAtTime :: "node \<Rightarrow> jsnum \<Rightarrow> jsnum \<Rightarrow> jsnum" where
  "creepAtTime model t sigma0 =
     (if t \<le> 0 then
        (let z0 = impedance model (Fin (10 ^ 12))
         in if strict_eq z0 0 then 0 else sigma0 / z0)
      else inverseLaplace (creep_F model sigma0) t)"

definition relax_F :: "node \<Rightarrow> jsnum \<Rightarrow> jsnum \<Rightarrow> jsnum" where
  "relax_F model eps0 s = (eps0 * impedance model s) / s"

definition relaxAtTime :: "node \<Rightarrow> jsnum \<Rightarrow> jsnum \<Rightarrow> jsnum" where
  "relaxAtTime model t eps0 =
     (if t \<le> 0 then
        (let z0 = impedance model (Fin (10 ^ 12))
         in eps0 * z0)
      else inverseLaplace (relax_F model eps0) t)"

definition instantElasticStrain :: "node \<Rightarrow> jsnum \<Rightarrow> jsnum" where
  "instantElasticStrain model sigma0 =
     (let zInf = impedance model (Fin (10 ^ 15))
      in if strict_eq zInf 0 then 0 else sigma0 / zInf)"

definition instantElasticStress :: "node \<Rightarrow> jsnum \<Rightarrow> jsnum" where
  "instantElasticStress model eps0 =
     (let zInf = impedance model (Fin (10 ^ 15))
      in eps0 * zInf)"

section \<open>Response sampler\<close>

text \<open>
  \<open>toFixed6 x\<close> is \<^verbatim>\<open>parseFloat(x.toFixed(6))\<close>: the magnitude is rounded to the
  nearest multiple of \<open>10\<^sup>-\<^sup>6\<close>, a tie to the larger one; a magnitude of
  \<open>10\<^sup>2\<^sup>1\<close> or more, an infinity and \<open>NaN\<close> are printed and read back as
  they are.
\<close>

fun toFixed6 :: "jsnum \<Rightarrow> jsnum" where
  "toFixed6 (Fin x) =
     (if 10 ^ 21 \<le> \<bar>x\<bar> then Fin x
      else Fin (sgn x * real_of_int \<lfloor>\<bar>x\<bar> * 10 ^ 6 + 1 / 2\<rfloor> / 10 ^ 6))"
| "toFixed6 PInf = PInf"
| "toFixed6 NInf = NInf"
| "toFixed6 NaN = NaN"

declare toFixed6.simps [simp del]

record sampled_point =
  pt_t :: jsnum
  pt_value :: jsnum
  pt_load :: jsnum

text \<open>
  \<open>computeCreep\<close> and \<open>computeRelaxation\<close> run the same loop, statement for
  statement; they differ in the response function (\<open>creepAtTime\<close> or
  \<open>relaxAtTime\<close> of the model and the magnitude), in the magnitude (\<open>sigma0\<close> or
  \<open>eps0\<close>) and in \<open>instantDrop\<close>. The loop is modelled once, over these three:
  \<open>R\<close>, \<open>mag\<close> and \<open>instantDrop\<close>. \<open>tRemoval\<close> is \<open>None\<close> for
  \<^verbatim>\<open>null\<close>.
\<close>

definition grid_time :: "jsnum \<Rightarrow> nat \<Rightarrow> nat \<Rightarrow> jsnum" where
  "grid_time tMax nPoints i = (Fin (real i) / Fin (real nPoints)) * tMax"

text \<open>The point pushed at the end of the loop body.\<close>

definition regular_point :: "(jsnum \<Rightarrow> jsnum) \<Rightarrow> jsnum \<Rightarrow> jsnum option \<Rightarrow> jsnum \<Rightarrow> sampled_point" where
  "regular_point R mag tRemoval t =
     (case tRemoval of
        None \<Rightarrow> \<lparr>pt_t = toFixed6 t, pt_value = toFixed6 (R t), pt_load = mag\<rparr>
      | Some tr \<Rightarrow>
          if tr < t then
            \<lparr>pt_t = toFixed6 t, pt_value = toFixed6 (R t - R (t - tr)), pt_load = 0\<rparr>
          else \<lparr>pt_t = toFixed6 t, pt_value = toFixed6 (R t), pt_load = mag\<rparr>)"

text \<open>One iteration of the loop body; leaving before the regular point is \<^verbatim>\<open>continue\<close>.\<close>

definition sample_body ::
  "(jsnum \<Rightarrow> jsnum) \<Rightarrow> jsnum \<Rightarrow> jsnum \<Rightarrow> jsnum \<Rightarrow> nat \<Rightarrow> jsnum option \<Rightarrow> nat \<Rightarrow>
     sampled_point list \<Rightarrow> sampled_point list" where
  "sample_body R mag instantDrop tMax nPoints tRemoval i data =
     (let t = grid_time tMax nPoints i in
      case tRemoval of
        None \<Rightarrow> data @ [regular_point R mag tRemoval t]
      | Some tr \<Rightarrow>
          if 0 < i \<and> grid_time tMax nPoints (i - 1) < tr \<and> tr \<le> t then
            (let valBefore = R tr;
                 data1 = data @ [\<lparr>pt_t = toFixed6 tr, pt_value = toFixed6 valBefore, pt_load = mag\<rparr>];
                 valAfter = valBefore - instantDrop;
                 data2 = data1 @ [\<lparr>pt_t = toFixed6 tr, pt_value = toFixed6 valAfter, pt_load = 0\<rparr>]
             in if \<bar>t - tr\<bar> < (tMax / Fin (real nPoints)) * Fin (1 / 2) then data2
                else data2 @ [regular_point R mag tRemoval t])
          else data @ [regular_point R mag tRemoval t])"

function sample_loop ::
  "(jsnum \<Rightarrow> jsnum) \<Rightarrow> jsnum \<Rightarrow> jsnum \<Rightarrow> jsnum \<Rightarrow> nat \<Rightarrow> jsnum option \<Rightarrow> nat \<Rightarrow>
     sampled_point list \<Rightarrow> sampled_point list" where
  "sample_loop R mag instantDrop tMax nPoints tRemoval i data =
     (if i \<le> nPoints then
        sample_loop R mag instantDrop tMax nPoints tRemoval (i + 1)
          (sample_body R mag instantDrop tMax nPoints tRemoval i data)
      else data)"
  by pat_completeness auto
termination
  by (relation "measure (\<lambda>(R, mag, d, tMax, nPoints, tRemoval, i, data). nPoints + 1 - i)") auto

declare sample_loop.simps [simp del]

definition computeCreep :: "node \<Rightarrow> jsnum \<Rightarrow> nat \<Rightarrow> jsnum \<Rightarrow> jsnum option \<Rightarrow> sampled_point list" where
  "computeCreep model tMax nPoints sigma0 tRemoval =
     (let instantDrop = instantElasticStrain model sigma0
      in sample_loop (\<lambda>t. creepAtTime model t sigma0) sigma0 instantDrop
           tMax nPoints tRemoval 0 [])"

definition computeRelaxation :: "node \<Rightarrow> jsnum \<Rightarrow> nat \<Rightarrow> jsnum \<Rightarrow> jsnum option \<Rightarrow> sampled_point list" where
  "computeRelaxation model tMax nPoints eps0 tRemoval =
     (let instantDrop = instantElasticStress model eps0
      in sample_loop (\<lambda>t. relaxAtTime model t eps0) eps0 instantDrop
           tMax nPoints tRemoval 0 [])"

text \<open>
  The output with an unload time, in the words of the specification, over exact
  times. \<open>crossing_step\<close>: the grid step where the previous grid time
  \<open>< t1 \<le>\<close> the current grid time. \<open>unload_series\<close>: the regular points with
  the two points stamped at \<open>t1\<close> put before the regular point of the crossing
  step \<open>c\<close>, which is left out when its grid time is within half a grid step of
  \<open>t1\<close>.
\<close>

definition crossing_step :: "jsnum \<Rightarrow> nat \<Rightarrow> jsnum \<Rightarrow> nat \<Rightarrow> bool" where
  "crossing_step tMax nPoints t1 i =
     (0 < i \<and> i \<le> nPoints \<and>
      grid_time tMax nPoints (i - 1) < t1 \<and> t1 \<le> grid_time tMax nPoints i)"

definition unload_series ::
  "(jsnum \<Rightarrow> jsnum) \<Rightarrow> jsnum \<Rightarrow> jsnum \<Rightarrow> jsnum \<Rightarrow> nat \<Rightarrow> jsnum \<Rightarrow> nat \<Rightarrow> sampled_point list" where
  "unload_series R mag instantDrop tMax nPoints t1 c =
     map (\<lambda>i. regular_point R mag (Some t1) (grid_time tMax nPoints i)) [0..<c] @
     [\<lparr>pt_t = toFixed6 t1, pt_value = toFixed6 (R t1), pt_load = mag\<rparr>,
      \<lparr>pt_t = toFixed6 t1, pt_value = toFixed6 (R t1 - instantDrop), pt_load = 0\<rparr>] @
     (if \<bar>grid_time tMax nPoints c - t1\<bar> < (tMax / Fin (real nPoints)) * Fin (1 / 2) then []
      else [regular_point R mag (Some t1) (grid_time tMax nPoints c)]) @
     map (\<lambda>i. regular_point R mag (Some t1) (grid_time tMax nPoints i)) [Suc c..<Suc nPoints]"

subsection \<open>The sampler with the rounding of its arithmetic\<close>

text \<open>
  Which points the sampler emits is decided by comparisons of computed times
  (\<^verbatim>\<open>tPrev < tRemoval && t >= tRemoval\<close>, \<^verbatim>\<open>Math.abs(t - tRemoval) < (tMax / nPoints) * 0.5\<close>,
  \<^verbatim>\<open>t > tRemoval\<close>), and a time that is a grid node or a half step in exact
  arithmetic can fall on the other side once rounded. So the sampler is also modelled
  with the rounding of each of its own operations: \<open>rnd\<close> stands for the rounding of
  a real number to the nearest double, and \<open>fl rnd\<close> applies it to a finite result.
  The definitions below are \<open>grid_time\<close>, \<open>regular_point\<close>, \<open>sample_body\<close>,
  \<open>sample_loop\<close>, \<open>computeCreep\<close> and \<open>computeRelaxation\<close> again, each
  operation of the source rounded; the response function and \<open>instantDrop\<close> are
  those of the functions above. With \<open>rnd\<close> the identity they are the exact ones.
  \<open>crossing_step_fl\<close>, \<open>superposed_point_fl\<close> and \<open>unload_series_fl\<close> state
  the output in the words of the specification over the rounded times:
  \<open>superposed_point_fl\<close> is the regular point at grid time \<open>t\<close>, \<open>R(t)\<close> under
  the full load up to \<open>t1\<close> and \<open>R(t) - R(t - t1)\<close> under no load after it.
\<close>

definition fl :: "(real \<Rightarrow> real) \<Rightarrow> jsnum \<Rightarrow> jsnum" where
  "fl rnd x = (case x of Fin r \<Rightarrow> Fin (rnd r) | PInf \<Rightarrow> PInf | NInf \<Rightarrow> NInf | NaN \<Rightarrow> NaN)"

definition grid_time_fl :: "(real \<Rightarrow> real) \<Rightarrow> jsnum \<Rightarrow> nat \<Rightarrow> nat \<Rightarrow> jsnum" where
  "grid_time_fl rnd tMax nPoints i =
     fl rnd (fl rnd (Fin (real i) / Fin (real nPoints)) * tMax)"

definition regular_point_fl ::
  "(real \<Rightarrow> real) \<Rightarrow> (jsnum \<Rightarrow> jsnum) \<Rightarrow> jsnum \<Rightarrow> jsnum option \<Rightarrow> jsnum \<Rightarrow> sampled_point" where
  "regular_point_fl rnd R mag tRemoval t =
     (case tRemoval of
        None \<Rightarrow> \<lparr>pt_t = toFixed6 t, pt_value = toFixed6 (R t), pt_load = mag\<rparr>
      | Some tr \<Rightarrow>
          if tr < t then
            \<lparr>pt_t = toFixed6 t,
             pt_value = toFixed6 (fl rnd (R t - R (fl rnd (t - tr)))),
             pt_load = 0\<rparr>
          else \<lparr>pt_t = toFixed6 t, pt_value = toFixed6 (R t), pt_load = mag\<rparr>)"

definition sample_body_fl ::
  "(real \<Rightarrow> real) \<Rightarrow> (jsnum \<Rightarrow> jsnum) \<Rightarrow> jsnum \<Rightarrow> jsnum \<Rightarrow> jsnum \<Rightarrow> nat \<Rightarrow> jsnum option \<Rightarrow>
     nat \<Rightarrow> sampled_point list \<Rightarrow> sampled_point list" where
  "sample_body_fl rnd R mag instantDrop tMax nPoints tRemoval i data =
     (let t = grid_time_fl rnd tMax nPoints i in
      case tRemoval of
        None \<Rightarrow> data @ [regular_point_fl rnd R mag tRemoval t]
      | Some tr \<Rightarrow>
          if 0 < i \<and> grid_time_fl rnd tMax nPoints (i - 1) < tr \<and> tr \<le> t then
            (let valBefore = R tr;
                 data1 = data @ [\<lparr>pt_t = toFixed6 tr, pt_value = toFixed6 valBefore, pt_load = mag\<rparr>];
                 valAfter = fl rnd (valBefore - instantDrop);
                 data2 = data1 @ [\<lparr>pt_t = toFixed6 tr, pt_value = toFixed6 valAfter, pt_load = 0\<rparr>]
             in if \<bar>fl rnd (t - tr)\<bar> < fl rnd (fl rnd (tMax / Fin (real nPoints)) * Fin (1 / 2))
                then data2
                else data2 @ [regular_point_fl rnd R mag tRemoval t])
          else data @ [regular_point_fl rnd R mag tRemoval t])"

function sample_loop_fl ::
  "(real \<Rightarrow> real) \<Rightarrow> (jsnum \<Rightarrow> jsnum) \<Rightarrow> jsnum \<Rightarrow> jsnum \<Rightarrow> jsnum \<Rightarrow> nat \<Rightarrow> jsnum option \<Rightarrow>
     nat \<Rightarrow> sampled_point list \<Rightarrow> sampled_point list" where
  "sample_loop_fl rnd R mag instantDrop tMax nPoints tRemoval i data =
     (if i \<le> nPoints then
        sample_loop_fl rnd R mag instantDrop tMax nPoints tRemoval (i + 1)
          (sample_body_fl rnd R mag instantDrop tMax nPoints tRemoval i data)
      else data)"
  by pat_completeness auto
termination
  by (relation "measure (\<lambda>(rnd, R, mag, d, tMax, nPoints, tRemoval, i, data). nPoints + 1 - i)")
    auto

declare sample_loop_fl.simps [simp del]

definition computeCreep_fl ::
  "(real \<Rightarrow> real) \<Rightarrow> node \<Rightarrow> jsnum \<Rightarrow> nat \<Rightarrow> jsnum \<Rightarrow> jsnum option \<Rightarrow> sampled_point list" where
  "computeCreep_fl rnd model tMax nPoints sigma0 tRemoval =
     (let instantDrop = instantElasticStrain model sigma0
      in sample_loop_fl rnd (\<lambda>t. creepAtTime model t sigma0) sigma0 instantDrop
           tMax nPoints tRemoval 0 [])"

definition computeRelaxation_fl ::
  "(real \<Rightarrow> real) \<Rightarrow> node \<Rightarrow> jsnum \<Rightarrow> nat \<Rightarrow> jsnum \<Rightarrow> jsnum option \<Rightarrow> sampled_point list" where
  "computeRelaxation_fl rnd model tMax nPoints eps0 tRemoval =
     (let instantDrop = instantElasticStress model eps0
      in sample_loop_fl rnd (\<lambda>t. relaxAtTime model t eps0) eps0 instantDrop
           tMax nPoints tRemoval 0 [])"

definition crossing_step_fl :: "(real \<Rightarrow> real) \<Rightarrow> jsnum \<Rightarrow> nat \<Rightarrow> jsnum \<Rightarrow> nat \<Rightarrow> bool" where
  "crossing_step_fl rnd tMax nPoints t1 i =
     (0 < i \<and> i \<le> nPoints \<and>
      grid_time_fl rnd tMax nPoints (i - 1) < t1 \<and> t1 \<le> grid_time_fl rnd tMax nPoints i)"

definition superposed_point_fl ::
  "(real \<Rightarrow> real) \<Rightarrow> (jsnum \<Rightarrow> jsnum) \<Rightarrow> jsnum \<Rightarrow> jsnum \<Rightarrow> jsnum \<Rightarrow> sampled_point" where
  "superposed_point_fl rnd R mag t1 t =
     (if t \<le> t1 then \<lparr>pt_t = toFixed6 t, pt_value = toFixed6 (R t), pt_load = mag\<rparr>
      else \<lparr>pt_t = toFixed6 t,
            pt_value = toFixed6 (fl rnd (R t - R (fl rnd (t - t1)))),
            pt_load = 0\<rparr>)"

definition unload_series_fl ::
  "(real \<Rightarrow> real) \<Rightarrow> (jsnum \<Rightarrow> jsnum) \<Rightarrow> jsnum \<Rightarrow> jsnum \<Rightarrow> jsnum \<Rightarrow> nat \<Rightarrow> jsnum \<Rightarrow> nat \<Rightarrow>
     sampled_point list" where
  "unload_series_fl rnd R mag instantDrop tMax nPoints t1 c =
     map (\<lambda>i. regular_point_fl rnd R mag (Some t1) (grid_time_fl rnd tMax nPoints i)) [0..<c] @
     [\<lparr>pt_t = toFixed6 t1, pt_value = toFixed6 (R t1), pt_load = mag\<rparr>,
      \<lparr>pt_t = toFixed6 t1, pt_value = toFixed6 (fl rnd (R t1 - instantDrop)), pt_load = 0\<rparr>] @
     (if \<bar>fl rnd (grid_time_fl rnd tMax nPoints c - t1)\<bar>
           < fl rnd (fl rnd (tMax / Fin (real nPoints)) * Fin (1 / 2)) then []
      else [regular_point_fl rnd R mag (Some t1) (grid_time_fl rnd tMax nPoints c)]) @
     map (\<lambda>i. regular_point_fl rnd R mag (Some t1) (grid_time_fl rnd tMax nPoints i))
       [Suc c..<Suc nPoints]"

section \<open>Properties of the number model\<close>

lemma times_jsnum_commute: "(a::jsnum) * b = b * a"
  by (cases a; cases b) simp_all

lemma strict_eq_zero [simp]: "strict_eq z 0 = (z = 0)"
  by (auto simp: strict_eq_def zero_jsnum_def)

lemma jsnum_less_not_le: "(a::jsnum) < b \<Longrightarrow> \<not> b \<le> a"
  by (cases a; cases b) simp_all

lemma jsnum_zero_le_zero [simp]: "(0::jsnum) \<le> 0"
  by (simp add: zero_jsnum_def)

lemma jsnum_pos_nonneg: "(0::jsnum) < a \<Longrightarrow> 0 \<le> a"
  by (cases a) (simp_all add: zero_jsnum_def)

lemma jsnum_mult_pos: "(0::jsnum) < a \<Longrightarrow> 0 < b \<Longrightarrow> 0 \<le> a * b"
  by (cases a; cases b) (simp_all add: zero_jsnum_def)

lemma jsnum_add_nonneg: "(0::jsnum) \<le> a \<Longrightarrow> 0 \<le> b \<Longrightarrow> 0 \<le> a + b"
  by (cases a; cases b) (simp_all add: zero_jsnum_def)

lemma jsnum_recip_nonneg: "(0::jsnum) \<le> a \<Longrightarrow> 0 \<le> 1 / a"
  by (cases a) (simp_all add: zero_jsnum_def one_jsnum_def)

lemma jsnum_sum_list_nonneg:
  "(\<And>x. x \<in> set xs \<Longrightarrow> (0::jsnum) \<le> x) \<Longrightarrow> 0 \<le> sum_list xs"
  by (induction xs) (simp_all add: jsnum_add_nonneg)

lemma jsnum_nonneg_cases: "(0::jsnum) \<le> a \<Longrightarrow> (\<exists>x. a = Fin x \<and> 0 \<le> x) \<or> a = PInf"
  by (cases a) (simp_all add: zero_jsnum_def)

section \<open>The impedance evaluator\<close>

text \<open>The two loops, unrolled: what they return in terms of the children's impedances.\<close>

lemma series_loop_eq:
  "series_loop cs s a =
     (if list_ex (\<lambda>c. \<bar>impedance c s\<bar> < tiny) cs then 0
      else if a + sum_list (map (\<lambda>c. 1 / impedance c s) cs) = 0 then PInf
      else 1 / (a + sum_list (map (\<lambda>c. 1 / impedance c s) cs)))"
  by (induction cs arbitrary: a) (simp_all add: Let_def add.assoc)

lemma parallel_loop_eq:
  "parallel_loop cs s a = a + sum_list (map (\<lambda>c. impedance c s) cs)"
  by (induction cs arbitrary: a) (simp_all add: add.assoc)

text \<open>
  C5: for every node and every \<open>s\<close>, \<open>impedance\<close> returns what the reference
  definition says: \<open>E\<close> for a spring, \<open>\<eta>\<cdot>s\<close> for a dashpot, the sum of the
  children's impedances for a parallel node; for a series node \<open>0\<close> as soon as a
  child's impedance has magnitude below \<open>1e-30\<close>, whatever the remaining children
  are, \<open>+\<infinity>\<close> when the accumulated compliance is exactly \<open>0\<close>, and the
  reciprocal of the accumulated compliance otherwise.
\<close>

theorem impedance_refines_reference: "impedance node s = impedance_ref node s"
proof (induction node)
  case (Series children)
  have e: "list_ex (\<lambda>c. \<bar>impedance c s\<bar> < tiny) children
         = list_ex (\<lambda>c. \<bar>impedance_ref c s\<bar> < tiny) children"
    using Series by (simp add: list_ex_iff)
  have q: "map (\<lambda>c. 1 / impedance c s) children = map (\<lambda>c. 1 / impedance_ref c s) children"
    using Series by simp
  show ?case by (simp add: series_loop_eq e q)
next
  case (Parallel children)
  then have m: "map (\<lambda>c. impedance c s) children = map (\<lambda>c. impedance_ref c s) children"
    by simp
  show ?case by (simp add: parallel_loop_eq m)
qed simp_all

theorem impedance_refines_reference_witness:
  "impedance (Series [Spring (Fin 100), Parallel [Spring (Fin 60), Dashpot (Fin 50)]]) (Fin 2)
   = impedance_ref (Series [Spring (Fin 100), Parallel [Spring (Fin 60), Dashpot (Fin 50)]]) (Fin 2)"
  by (rule impedance_refines_reference)

lemma impedance_nonneg: "positive_tree n \<Longrightarrow> 0 < s \<Longrightarrow> 0 \<le> impedance n s"
proof (induction n)
  case (Series children)
  then have c: "\<And>c. c \<in> set children \<Longrightarrow> 0 \<le> impedance c s"
    by (simp add: list_all_iff)
  have "0 \<le> sum_list (map (\<lambda>c. 1 / impedance c s) children)"
    by (rule jsnum_sum_list_nonneg) (auto simp: jsnum_recip_nonneg c)
  then have "0 \<le> 1 / (0 + sum_list (map (\<lambda>c. 1 / impedance c s) children))"
    by (simp add: jsnum_recip_nonneg)
  then show ?case by (simp add: series_loop_eq) (simp add: zero_jsnum_def)
next
  case (Parallel children)
  then have c: "\<And>c. c \<in> set children \<Longrightarrow> 0 \<le> impedance c s"
    by (simp add: list_all_iff)
  have "0 \<le> sum_list (map (\<lambda>c. impedance c s) children)"
    by (rule jsnum_sum_list_nonneg) (auto simp: c)
  then show ?case by (simp add: parallel_loop_eq)
qed (simp_all add: jsnum_pos_nonneg jsnum_mult_pos)

text \<open>
  C10: for a tree built only from the four known variants, with every spring's
  \<open>E > 0\<close> and every dashpot's \<open>\<eta> > 0\<close>, and for \<open>s > 0\<close>, the impedance is
  a real number \<open>\<ge> 0\<close> or \<open>+\<infinity>\<close>; it is never negative (nor \<open>NaN\<close>).
\<close>

theorem impedance_nonnegative:
  assumes "positive_tree tree" and "0 < s"
  shows "(\<exists>x. impedance tree s = Fin x \<and> 0 \<le> x) \<or> impedance tree s = PInf"
  using assms by (intro jsnum_nonneg_cases impedance_nonneg)

theorem impedance_nonnegative_witness:
  "positive_tree (Series [Spring (Fin 100), Dashpot (Fin 50)]) \<and> 0 < Fin 1 \<and>
   ((\<exists>x. impedance (Series [Spring (Fin 100), Dashpot (Fin 50)]) (Fin 1) = Fin x \<and> 0 \<le> x) \<or>
    impedance (Series [Spring (Fin 100), Dashpot (Fin 50)]) (Fin 1) = PInf)"
proof -
  have p: "positive_tree (Series [Spring (Fin 100), Dashpot (Fin 50)])"
    by (simp add: zero_jsnum_def)
  have s: "0 < Fin 1"
    by (simp add: zero_jsnum_def)
  from impedance_nonnegative [OF p s] p s show ?thesis
    by (intro conjI)
qed

section \<open>The Stehfest coefficient generator\<close>

text \<open>
  The bounds that keep the generator inside the range of doubles for \<open>N \<le> 120\<close>,
  and the product that leaves it at \<open>N = 122\<close>.
\<close>

lemma fact_170_bound: "fact 170 < double_overflow"
  unfolding double_overflow_def by (simp add: fact_numeral)

lemma sum_bound: "60 ^ 60 * fact 120 * 60 < double_overflow"
  unfolding double_overflow_def by (simp add: fact_numeral)

lemma den_bound: "fact 60 ^ 3 < double_overflow"
  unfolding double_overflow_def by (simp add: fact_numeral)

lemma num_122_overflow: "double_overflow \<le> 61 ^ 61 * fact 122"
  unfolding double_overflow_def by (simp add: fact_numeral)


lemma ovf_Fin: "- double_overflow < x \<Longrightarrow> x < double_overflow \<Longrightarrow> ovf (Fin x) = Fin x"
  by (simp add: ovf.simps)

lemma ovf_PInf: "double_overflow \<le> x \<Longrightarrow> ovf (Fin x) = PInf"
  by (simp add: ovf.simps)

lemma double_overflow_pos: "0 < double_overflow"
  unfolding double_overflow_def by simp

lemma ovf_Fin_nonneg: "0 \<le> x \<Longrightarrow> x < double_overflow \<Longrightarrow> ovf (Fin x) = Fin x"
  using double_overflow_pos by (intro ovf_Fin) simp_all

lemma fact_bound_170: "n \<le> 170 \<Longrightarrow> (fact n :: real) < double_overflow"
  using fact_mono [of n 170, where 'a = real] fact_170_bound by simp

lemma factorial_loop_upto:
  "1 \<le> i \<Longrightarrow> i \<le> j \<Longrightarrow> j \<le> n + 1 \<Longrightarrow> j \<le> 171 \<Longrightarrow>
   factorial_loop n i (Fin (fact (nat (i - 1)))) = factorial_loop n j (Fin (fact (nat (j - 1))))"
proof (induction "nat (j - i)" arbitrary: i)
  case 0
  then have "i = j" by simp
  then show ?case by simp
next
  case (Suc d)
  then have lt: "i < j" by simp
  then have le: "i \<le> n" using Suc.prems(3) by simp
  have s: "nat i = Suc (nat (i - 1))"
    using Suc.prems(1) by simp
  have f: "fact (nat (i - 1)) * real_of_int i = fact (nat i)"
    unfolding s fact_Suc using Suc.prems(1) by simp
  have "nat i \<le> 170"
    using lt Suc.prems(4) by simp
  then have "(fact (nat i) :: real) < double_overflow"
    by (rule fact_bound_170)
  then have "ovf (Fin (fact (nat i))) = Fin (fact (nat i))"
    by (intro ovf_Fin_nonneg) simp_all
  then have o: "ovf (Fin (fact (nat (i - 1))) * Fin (real_of_int i)) = Fin (fact (nat (i + 1 - 1)))"
    by (simp only: times_jsnum.simps f add_diff_cancel_right')
  have "factorial_loop n i (Fin (fact (nat (i - 1)))) =
      factorial_loop n (i + 1) (Fin (fact (nat (i + 1 - 1))))"
    using le by (subst factorial_loop.simps) (simp only: if_True o)
  also have "\<dots> = factorial_loop n j (Fin (fact (nat (j - 1))))"
    using Suc.hyps(2) Suc.prems lt by (intro Suc.hyps(1)) simp_all
  finally show ?case .
qed

lemma factorial_loop_eq:
  "1 \<le> i \<Longrightarrow> i \<le> n + 1 \<Longrightarrow> n \<le> 170 \<Longrightarrow>
   factorial_loop n i (Fin (fact (nat (i - 1)))) = Fin (fact (nat n))"
proof -
  assume a: "1 \<le> i" "i \<le> n + 1" "n \<le> 170"
  have "factorial_loop n i (Fin (fact (nat (i - 1)))) =
      factorial_loop n (n + 1) (Fin (fact (nat (n + 1 - 1))))"
    using a by (intro factorial_loop_upto) simp_all
  also have "\<dots> = Fin (fact (nat n))"
    by (subst factorial_loop.simps) simp
  finally show ?thesis .
qed

lemma factorial_nat: "n \<le> 170 \<Longrightarrow> factorial (int n) = Fin (fact n)"
proof (cases "n \<le> 1")
  case True
  then have "n = 0 \<or> n = 1" by auto
  then show ?thesis
    by (auto simp: factorial_def one_jsnum_def)
next
  case False
  assume n: "n \<le> 170"
  from False have "factorial (int n) = factorial_loop (int n) 2 (Fin (fact (nat (2 - 1))))"
    by (simp add: factorial_def one_jsnum_def)
  also have "\<dots> = Fin (fact (nat (int n)))"
    using False n by (intro factorial_loop_eq) simp_all
  finally show ?thesis by simp
qed


lemma fact_171_overflow: "double_overflow \<le> fact 170 * 171"
  unfolding double_overflow_def by (simp add: fact_numeral)

lemma factorial_171: "factorial 171 = PInf"
proof -
  have "factorial 171 = factorial_loop 171 2 (Fin (fact (nat (2 - 1))))"
    by (simp add: factorial_def one_jsnum_def)
  also have "\<dots> = factorial_loop 171 171 (Fin (fact (nat (171 - 1))))"
    by (rule factorial_loop_upto) simp_all
  also have "\<dots> = ovf (Fin (fact 170) * Fin 171)"
    by (subst factorial_loop.simps, subst factorial_loop.simps) simp
  also have "\<dots> = PInf"
    unfolding times_jsnum.simps(1) by (rule ovf_PInf [OF fact_171_overflow])
  finally show ?thesis .
qed

lemma fact_mult_le: "fact a * fact b \<le> (fact (a + b) :: real)"
proof -
  have "fact a * fact b dvd (fact (a + b) :: nat)"
    by (rule fact_fact_dvd_fact)
  then have "fact a * fact b \<le> (fact (a + b) :: nat)"
    by (rule dvd_imp_le) simp
  then have "real (fact a * fact b) \<le> real (fact (a + b))"
    by (simp only: of_nat_le_iff)
  then show ?thesis
    by simp
qed

lemma stehfest_summand:
  assumes N: "N \<le> 120" and k: "1 \<le> k" "k \<le> N div 2" "k \<le> i" "i \<le> 2 * k"
  shows "ovf (ovf (ovf (Fin (real k ^ (N div 2))) * factorial (2 * int k)) /
              ovf (ovf (ovf (ovf (factorial (int (N div 2) - int k) * factorial (int k)) *
                             factorial (int k - 1)) *
                        factorial (int i - int k)) *
                   factorial (2 * int k - int i)))
       = Fin (stehfest_term N i k)"
    and "0 \<le> stehfest_term N i k"
    and "stehfest_term N i k \<le> 60 ^ 60 * fact 120"
proof -
  let ?h = "N div 2"
  let ?F = "fact 60 :: real"
  have h: "?h \<le> 60" using N by simp
  have thr: "60 ^ 60 * fact 120 < double_overflow"
  proof -
    have "60 ^ 60 * fact 120 \<le> 60 ^ 60 * fact 120 * (60::real)"
      by simp
    then show ?thesis using sum_bound by (rule le_less_trans)
  qed
  \<comment> \<open>the five factorials\<close>
  have f0: "factorial (2 * int k) = Fin (fact (2 * k))"
    using factorial_nat [of "2 * k"] k h by simp
  have f1: "factorial (int ?h - int k) = Fin (fact (?h - k))"
    using factorial_nat [of "?h - k"] k h by simp
  have f2: "factorial (int k) = Fin (fact k)"
    using factorial_nat [of k] k h by simp
  have f3: "factorial (int k - 1) = Fin (fact (k - 1))"
    using factorial_nat [of "k - 1"] k h by simp
  have f4: "factorial (int i - int k) = Fin (fact (i - k))"
    using factorial_nat [of "i - k"] k h by simp
  have f5: "factorial (2 * int k - int i) = Fin (fact (2 * k - i))"
    using factorial_nat [of "2 * k - i"] k h by simp
  \<comment> \<open>the numerator\<close>
  have pw: "real k ^ ?h \<le> 60 ^ 60"
  proof -
    have "real k ^ ?h \<le> 60 ^ ?h"
      using k h by (intro power_mono) simp_all
    also have "\<dots> \<le> (60::real) ^ 60"
      using h by (intro power_increasing) simp_all
    finally show ?thesis .
  qed
  have f120: "(fact (2 * k) :: real) \<le> fact 120"
    using k h by (intro fact_mono) simp
  have num_le: "real k ^ ?h * fact (2 * k) \<le> 60 ^ 60 * fact 120"
    using pw f120 by (intro mult_mono) simp_all
  have num0: "0 \<le> real k ^ ?h * fact (2 * k)"
    by simp
  have "real k ^ ?h < double_overflow"
  proof -
    have "(60::real) ^ 60 \<le> 60 ^ 60 * fact 120"
      by simp
    with pw thr show ?thesis by linarith
  qed
  then have o1: "ovf (Fin (real k ^ ?h)) = Fin (real k ^ ?h)"
    by (intro ovf_Fin_nonneg) simp_all
  have o2: "ovf (Fin (real k ^ ?h * fact (2 * k))) = Fin (real k ^ ?h * fact (2 * k))"
    using num_le thr by (intro ovf_Fin_nonneg num0) linarith
  \<comment> \<open>the denominator\<close>
  have F1: "(1::real) \<le> ?F" by simp
  have a: "fact (?h - k) * fact k \<le> ?F"
  proof -
    have "fact (?h - k) * fact k \<le> (fact (?h - k + k) :: real)"
      by (rule fact_mult_le)
    also have "\<dots> \<le> ?F"
      using k h by (intro fact_mono) simp
    finally show ?thesis .
  qed
  have g3: "fact (k - 1) \<le> ?F"
    using k h by (intro fact_mono) simp
  have g4: "fact (i - k) \<le> ?F"
    using k h by (intro fact_mono) simp
  have b: "fact (?h - k) * fact k * fact (k - 1) \<le> ?F * ?F"
    by (rule mult_mono [OF a g3]) simp_all
  have c: "fact (?h - k) * fact k * fact (k - 1) * fact (i - k) \<le> ?F * ?F * ?F"
    by (rule mult_mono [OF b g4]) simp_all
  have d: "fact (?h - k) * fact k * fact (k - 1) * fact (i - k) * fact (2 * k - i) \<le> ?F * ?F * ?F"
  proof -
    have "fact (i - k) * fact (2 * k - i) \<le> (fact (i - k + (2 * k - i)) :: real)"
      by (rule fact_mult_le)
    also have "\<dots> \<le> ?F"
      using k h by (intro fact_mono) simp
    finally have e: "fact (i - k) * fact (2 * k - i) \<le> ?F" .
    have "fact (?h - k) * fact k * fact (k - 1) * (fact (i - k) * fact (2 * k - i)) \<le> ?F * ?F * ?F"
      by (rule mult_mono [OF b e]) simp_all
    then show ?thesis by (simp only: mult.assoc)
  qed
  have F3: "?F * ?F * ?F < double_overflow"
    using den_bound by (simp only: power3_eq_cube)
  have F2: "?F * ?F < double_overflow"
  proof -
    have "?F * ?F \<le> ?F * ?F * ?F"
      using mult_left_mono [OF F1, of "?F * ?F"] by simp
    then show ?thesis using F3 by (rule le_less_trans)
  qed
  have F0: "?F < double_overflow"
  proof -
    have "?F \<le> ?F * ?F"
      using mult_left_mono [OF F1, of ?F] by simp
    then show ?thesis using F2 by (rule le_less_trans)
  qed
  have oa: "ovf (Fin (fact (?h - k) * fact k)) = Fin (fact (?h - k) * fact k)"
    using a F0 by (intro ovf_Fin_nonneg) simp_all
  have ob: "ovf (Fin (fact (?h - k) * fact k * fact (k - 1)))
          = Fin (fact (?h - k) * fact k * fact (k - 1))"
    using b F2 by (intro ovf_Fin_nonneg) simp_all
  have oc: "ovf (Fin (fact (?h - k) * fact k * fact (k - 1) * fact (i - k)))
          = Fin (fact (?h - k) * fact k * fact (k - 1) * fact (i - k))"
    using c F3 by (intro ovf_Fin_nonneg) simp_all
  have od: "ovf (Fin (fact (?h - k) * fact k * fact (k - 1) * fact (i - k) * fact (2 * k - i)))
          = Fin (fact (?h - k) * fact k * fact (k - 1) * fact (i - k) * fact (2 * k - i))"
    using d F3 by (intro ovf_Fin_nonneg) simp_all
  \<comment> \<open>the quotient\<close>
  let ?D = "fact (?h - k) * fact k * fact (k - 1) * fact (i - k) * fact (2 * k - i) :: real"
  have D1: "1 \<le> ?D"
  proof -
    have "1 * 1 * 1 * 1 * 1 \<le> ?D"
      by (intro mult_mono) simp_all
    then show ?thesis by simp
  qed
  have t: "stehfest_term N i k = real k ^ ?h * fact (2 * k) / ?D"
    by (simp only: stehfest_term_def)
  show t0: "0 \<le> stehfest_term N i k"
    unfolding t by simp
  have "real k ^ ?h * fact (2 * k) / ?D \<le> real k ^ ?h * fact (2 * k) / 1"
    using D1 num0 by (intro divide_left_mono) simp_all
  with num_le show t1: "stehfest_term N i k \<le> 60 ^ 60 * fact 120"
    unfolding t by simp
  have oq: "ovf (Fin (stehfest_term N i k)) = Fin (stehfest_term N i k)"
    using t0 t1 thr by (intro ovf_Fin_nonneg) simp_all
  have q: "Fin (real k ^ ?h * fact (2 * k)) / Fin ?D = Fin (stehfest_term N i k)"
    using D1 unfolding t by simp
  show "ovf (ovf (ovf (Fin (real k ^ ?h)) * factorial (2 * int k)) /
              ovf (ovf (ovf (ovf (factorial (int ?h - int k) * factorial (int k)) *
                             factorial (int k - 1)) *
                        factorial (int i - int k)) *
                   factorial (2 * int k - int i)))
       = Fin (stehfest_term N i k)"
    by (simp only: f0 f1 f2 f3 f4 f5 o1 times_jsnum.simps(1) o2 oa ob oc od q oq)
qed


lemma stehfest_inner_eq:
  assumes N: "N \<le> 120" and i: "kMax \<le> N div 2" "kMax \<le> i"
  shows "1 \<le> k \<Longrightarrow> i \<le> 2 * k \<Longrightarrow> 0 \<le> a \<Longrightarrow>
    a + real (Suc kMax - k) * (60 ^ 60 * fact 120) < double_overflow \<Longrightarrow>
    stehfest_inner N i kMax k (Fin a) = Fin (a + (\<Sum>j = k..kMax. stehfest_term N i j))"
proof (induction "Suc kMax - k" arbitrary: k a)
  case 0
  then have "\<not> k \<le> kMax" by simp
  then show ?case
    by (subst stehfest_inner.simps) simp
next
  case (Suc d)
  let ?B = "60 ^ 60 * fact 120 :: real"
  from Suc.hyps(2) have le: "k \<le> kMax" by simp
  have kk: "k \<le> N div 2" "k \<le> i"
    using le i by simp_all
  note t = stehfest_summand [OF N Suc.prems(1) kk Suc.prems(2)]
  have n: "real (Suc kMax - k) = real (Suc kMax - (k + 1)) + 1"
    using le by (simp add: Suc_diff_le)
  have bound: "a + stehfest_term N i k + real (Suc kMax - (k + 1)) * ?B < double_overflow"
  proof -
    have "a + stehfest_term N i k + real (Suc kMax - (k + 1)) * ?B
        \<le> a + ?B + real (Suc kMax - (k + 1)) * ?B"
      using t(3) by simp
    also have "\<dots> = a + real (Suc kMax - k) * ?B"
      unfolding n by (simp add: algebra_simps)
    finally show ?thesis
      using Suc.prems(4) by (rule le_less_trans)
  qed
  have a0: "0 \<le> a + stehfest_term N i k"
    using Suc.prems(3) t(2) by simp
  have "a + stehfest_term N i k \<le> a + stehfest_term N i k + real (Suc kMax - (k + 1)) * ?B"
    by simp
  then have "a + stehfest_term N i k < double_overflow"
    using bound by (rule le_less_trans)
  then have o: "ovf (Fin (a + stehfest_term N i k)) = Fin (a + stehfest_term N i k)"
    by (rule ovf_Fin_nonneg [OF a0])
  have "stehfest_inner N i kMax k (Fin a) =
      stehfest_inner N i kMax (k + 1) (Fin (a + stehfest_term N i k))"
    by (subst stehfest_inner.simps) (simp only: le if_True Let_def t(1) plus_jsnum.simps(1) o)
  also have "\<dots> = Fin (a + stehfest_term N i k + (\<Sum>j = k + 1..kMax. stehfest_term N i j))"
    using Suc.hyps(2) Suc.prems(1,2) by (intro Suc.hyps(1) a0 bound) simp_all
  also have "\<dots> = Fin (a + (\<Sum>j = k..kMax. stehfest_term N i j))"
    using le by (simp add: sum.atLeast_Suc_atMost add.assoc)
  finally show ?case .
qed

lemma floor_half: "nat \<lfloor>(real i + 1) / 2\<rfloor> = (i + 1) div 2"
proof -
  have "(real i + 1) / 2 = real (i + 1) / real 2" by simp
  then show ?thesis
    by (simp only: floor_divide_of_nat_eq nat_int)
qed

lemma stehfest_value:
  assumes N: "N \<le> 120" and i: "1 \<le> i"
  shows "ovf (Fin ((- 1) ^ (i + N div 2)) *
           stehfest_inner N i (min i (N div 2)) ((i + 1) div 2) 0)
         = Fin (stehfest_formula_floor N i)"
proof -
  let ?B = "60 ^ 60 * fact 120 :: real"
  let ?lo = "(i + 1) div 2" and ?hi = "min i (N div 2)"
  let ?S = "\<Sum>j = ?lo..?hi. stehfest_term N i j"
  have lo: "1 \<le> ?lo" "i \<le> 2 * ?lo"
    using i by auto
  have hi: "?hi \<le> N div 2" "?hi \<le> i" "?hi \<le> 60"
    using N by auto
  have cnt: "real (Suc ?hi - ?lo) \<le> 60"
    using lo(1) hi(3) by simp
  have "real (Suc ?hi - ?lo) * ?B \<le> 60 * ?B"
    using cnt by (intro mult_right_mono) simp_all
  also have "\<dots> < double_overflow"
    using sum_bound by (simp only: mult.commute [of 60])
  finally have room: "0 + real (Suc ?hi - ?lo) * ?B < double_overflow"
    by simp
  have inner: "stehfest_inner N i ?hi ?lo (Fin 0) = Fin (0 + ?S)"
    using lo room by (intro stehfest_inner_eq [OF N hi(1,2)]) simp_all
  have tb: "\<And>j. j \<in> {?lo..?hi} \<Longrightarrow> 0 \<le> stehfest_term N i j \<and> stehfest_term N i j \<le> ?B"
  proof -
    fix j assume "j \<in> {?lo..?hi}"
    then have j: "1 \<le> j" "j \<le> N div 2" "j \<le> i" "i \<le> 2 * j"
      using lo by auto
    from stehfest_summand(2,3) [OF N j]
    show "0 \<le> stehfest_term N i j \<and> stehfest_term N i j \<le> ?B"
      by simp
  qed
  have S0: "0 \<le> ?S"
    using tb by (intro sum_nonneg) simp
  have "?S \<le> real (card {?lo..?hi}) * ?B"
    using tb by (intro sum_bounded_above) simp
  also have "\<dots> = real (Suc ?hi - ?lo) * ?B"
    by simp
  finally have S1: "?S < double_overflow"
    using room by simp
  have sgn: "(- 1 :: real) ^ (i + N div 2) = 1 \<or> (- 1 :: real) ^ (i + N div 2) = - 1"
    by (cases "even (i + N div 2)") simp_all
  have "- double_overflow < (- 1) ^ (i + N div 2) * ?S"
    and "(- 1) ^ (i + N div 2) * ?S < double_overflow"
    using sgn S0 S1 double_overflow_pos by auto
  then have "ovf (Fin ((- 1) ^ (i + N div 2) * ?S)) = Fin ((- 1) ^ (i + N div 2) * ?S)"
    by (rule ovf_Fin)
  then show ?thesis
    unfolding zero_jsnum_def inner
    by (simp add: stehfest_formula_floor_def floor_half)
qed

lemma stehfest_outer_length: "length (stehfest_outer N i V) = length V"
proof (induction N i V rule: stehfest_outer.induct)
  case (1 N i V)
  show ?case
  proof (cases "i \<le> N")
    case True
    let ?V = "V[i - 1 := ovf (Fin ((- 1) ^ (i + N div 2)) *
                stehfest_inner N i (min i (N div 2)) ((i + 1) div 2) 0)]"
    have "stehfest_outer N i V = stehfest_outer N (i + 1) ?V"
      using True by (subst stehfest_outer.simps) (simp only: if_True Let_def)
    moreover have "length (stehfest_outer N (i + 1) ?V) = length ?V"
      by (rule "1.IH" [OF True refl refl refl])
    ultimately show ?thesis by simp
  next
    case False
    then show ?thesis
      by (subst stehfest_outer.simps) simp
  qed
qed

lemma stehfest_outer_nth:
  "1 \<le> i \<Longrightarrow> length V = N \<Longrightarrow> 1 \<le> j \<Longrightarrow> j \<le> N \<Longrightarrow>
   stehfest_outer N i V ! (j - 1) =
     (if i \<le> j then ovf (Fin ((- 1) ^ (j + N div 2)) *
                        stehfest_inner N j (min j (N div 2)) ((j + 1) div 2) 0)
      else V ! (j - 1))"
proof (induction N i V rule: stehfest_outer.induct)
  case (1 N i V)
  show ?case
  proof (cases "i \<le> N")
    case True
    let ?W = "\<lambda>j. ovf (Fin ((- 1) ^ (j + N div 2)) *
                stehfest_inner N j (min j (N div 2)) ((j + 1) div 2) 0)"
    let ?V = "V[i - 1 := ?W i]"
    have "stehfest_outer N i V ! (j - 1) = stehfest_outer N (i + 1) ?V ! (j - 1)"
      using True by (subst stehfest_outer.simps) (simp only: if_True Let_def)
    also have "\<dots> = (if i + 1 \<le> j then ?W j else ?V ! (j - 1))"
      using "1.prems" by (intro "1.IH" [OF True refl refl refl]) simp_all
    also have "\<dots> = (if i \<le> j then ?W j else V ! (j - 1))"
    proof (cases "i = j")
      case True
      then show ?thesis
        using "1.prems" by simp
    next
      case False
      then have "i - 1 \<noteq> j - 1"
        using "1.prems" by auto
      then show ?thesis
        using False by auto
    qed
    finally show ?thesis .
  next
    case False
    then show ?thesis
      using "1.prems" by (subst stehfest_outer.simps) simp
  qed
qed

lemma stehfestCoeffs_length: "length (stehfestCoeffs N) = N"
  by (simp add: stehfestCoeffs_def stehfest_outer_length)

lemma stehfestCoeffs_loop:
  "1 \<le> i \<Longrightarrow> i \<le> N \<Longrightarrow>
   stehfestCoeffs N ! (i - 1) =
     ovf (Fin ((- 1) ^ (i + N div 2)) *
          stehfest_inner N i (min i (N div 2)) ((i + 1) div 2) 0)"
  unfolding stehfestCoeffs_def by (subst stehfest_outer_nth) simp_all

lemma stehfestCoeffs_nth:
  "N \<le> 120 \<Longrightarrow> 1 \<le> i \<Longrightarrow> i \<le> N \<Longrightarrow>
   stehfestCoeffs N ! (i - 1) = Fin (stehfest_formula_floor N i)"
  by (simp only: stehfestCoeffs_loop stehfest_value)


lemma overflow_122_bounds:
  "(61::real) ^ 61 < double_overflow"
  "fact 61 * fact 60 < double_overflow"
  "fact 61 * fact 60 * fact 61 < double_overflow"
  unfolding double_overflow_def by (simp_all add: fact_numeral)

lemma stehfest_inner_122: "stehfest_inner 122 122 61 61 0 = PInf"
proof -
  have f0: "factorial 0 = Fin 1"
    by (simp add: factorial_def one_jsnum_def)
  have f60: "factorial 60 = Fin (fact 60)"
    using factorial_nat [of 60] by simp
  have f61: "factorial 61 = Fin (fact 61)"
    using factorial_nat [of 61] by simp
  have f122: "factorial 122 = Fin (fact 122)"
    using factorial_nat [of 122] by simp
  have p: "ovf (Fin (61 ^ 61)) = Fin (61 ^ 61)"
    by (rule ovf_Fin_nonneg [OF _ overflow_122_bounds(1)]) simp
  have num: "ovf (ovf (Fin (61 ^ 61)) * factorial 122) = PInf"
    unfolding p f122 times_jsnum.simps(1) by (rule ovf_PInf [OF num_122_overflow])
  have d1: "ovf (Fin (fact 61)) = Fin (fact 61)"
    by (rule ovf_Fin_nonneg [OF _ fact_bound_170]) simp_all
  have d2: "ovf (Fin (fact 61 * fact 60)) = Fin (fact 61 * fact 60)"
    by (rule ovf_Fin_nonneg [OF _ overflow_122_bounds(2)]) simp
  have d3: "ovf (Fin (fact 61 * fact 60 * fact 61)) = Fin (fact 61 * fact 60 * fact 61)"
    by (rule ovf_Fin_nonneg [OF _ overflow_122_bounds(3)]) simp
  have den: "ovf (ovf (ovf (ovf (factorial 0 * factorial 61) * factorial 60) * factorial 61) *
                  factorial 0) = Fin (fact 61 * fact 60 * fact 61)"
    unfolding f0 f60 f61
    by (simp only: times_jsnum.simps(1) mult_1 mult_1_right d1 d2 d3)
  have "stehfest_inner 122 122 61 61 0 =
      ovf (ovf (ovf (ovf (Fin (61 ^ 61)) * factorial 122) /
                ovf (ovf (ovf (ovf (factorial 0 * factorial 61) * factorial 60) * factorial 61) *
                     factorial 0)))"
    by (subst stehfest_inner.simps, subst stehfest_inner.simps)
      (simp add: Let_def del: power_numeral)
  also have "\<dots> = PInf"
    unfolding num den by (simp add: ovf.simps)
  finally show ?thesis .
qed

lemma stehfestCoeffs_122_overflow: "stehfestCoeffs 122 ! (122 - 1) = NInf"
proof -
  have "stehfestCoeffs 122 ! (122 - 1) = ovf (Fin (- 1) * stehfest_inner 122 122 61 61 0)"
    using stehfestCoeffs_loop [of 122 122] by simp
  then show ?thesis
    unfolding stehfest_inner_122 by (simp add: ovf.simps)
qed

text \<open>
  C2, as the code has it: for every even \<open>N\<close> up to 120 and every \<open>i = 1..N\<close>,
  the \<open>i\<close>-th coefficient of \<open>stehfestCoeffs N\<close> is \<open>(-1)\<^sup>i\<^sup>+\<^sup>N\<^sup>/\<^sup>2\<close> times
  the sum, over \<open>k\<close> from \<open>\<lfloor>(i+1)/2\<rfloor>\<close> (the floor, not the ceiling) up to
  \<open>min(i, N/2)\<close>, of
  \<open>k\<^sup>N\<^sup>/\<^sup>2 (2k)! / [(N/2-k)! k! (k-1)! (i-k)! (2k-i)!]\<close>, the factorials (of
  arguments up to 170) computed by the iterative product; in particular the twelve
  default coefficients are given by this formula. No product overflows for these
  \<open>N\<close>; from \<open>N = 122\<close> on one does.
\<close>

theorem stehfestCoeffs_formula:
  assumes "even N" and "N \<le> 120"
  shows "(\<forall>m\<le>170. factorial (int m) = Fin (fact m)) \<and>
    length (stehfestCoeffs N) = N \<and>
    (\<forall>i \<in> {1..N}. stehfestCoeffs N ! (i - 1) = Fin (stehfest_formula_floor N i)) \<and>
    (\<forall>i \<in> {1..12}. coeffs ! (i - 1) = Fin (stehfest_formula_floor 12 i))"
proof (intro conjI ballI allI impI)
  fix m :: nat assume "m \<le> 170"
  then show "factorial (int m) = Fin (fact m)"
    by (rule factorial_nat)
next
  show "length (stehfestCoeffs N) = N"
    by (rule stehfestCoeffs_length)
next
  fix i assume "i \<in> {1..N}"
  then show "stehfestCoeffs N ! (i - 1) = Fin (stehfest_formula_floor N i)"
    using assms(2) by (intro stehfestCoeffs_nth) simp_all
next
  fix i :: nat assume "i \<in> {1..12}"
  then show "coeffs ! (i - 1) = Fin (stehfest_formula_floor 12 i)"
    unfolding coeffs_def STEHFEST_N_def by (intro stehfestCoeffs_nth) simp_all
qed

theorem stehfestCoeffs_formula_witness:
  "even (12::nat) \<and> (12::nat) \<le> 120 \<and> length (stehfestCoeffs 12) = 12 \<and>
   stehfestCoeffs 12 ! (1 - 1) = Fin (- 1 / 60) \<and>
   stehfestCoeffs 12 ! (2 - 1) = Fin (961 / 60)"
proof -
  have e: "even (12::nat)" and b: "(12::nat) \<le> 120"
    by simp_all
  have v1: "stehfest_formula_floor 12 1 = - 1 / 60"
    by (simp add: stehfest_formula_floor_def stehfest_term_def fact_numeral)
  have v2: "stehfest_formula_floor 12 2 = 961 / 60"
    by (simp add: stehfest_formula_floor_def stehfest_term_def sum.atLeast_Suc_atMost
        fact_numeral)
  have m: "(1::nat) \<in> {1..12}" "(2::nat) \<in> {1..12}"
    by simp_all
  from stehfestCoeffs_formula [OF e b]
  have "length (stehfestCoeffs 12) = 12"
    and "stehfestCoeffs 12 ! (1 - 1) = Fin (stehfest_formula_floor 12 1)"
    and "stehfestCoeffs 12 ! (2 - 1) = Fin (stehfest_formula_floor 12 2)"
    using m by blast+
  then show ?thesis
    using e b by (simp only: v1 v2)
qed

text \<open>
  The claim C2 as the specification states it fails twice. With the ceiling as the
  lower bound it fails at the default \<open>N = 12\<close> for \<open>i = 2\<close>: the loop runs over
  \<open>k = 1, 2\<close> and gives \<open>1/60 + 16\<close>, the stated sum runs over \<open>k = 2\<close> alone
  and gives \<open>16\<close>. And it does not hold for every even \<open>N\<close>: at \<open>N = 122\<close> the
  product \<open>61\<^sup>6\<^sup>1 \<cdot> 122!\<close> overflows and the last coefficient is \<open>-\<infinity>\<close>;
  the iterative product itself overflows at \<open>171!\<close>.
\<close>

theorem stehfestCoeffs_ceiling_counterexample:
  "stehfestCoeffs 12 ! (2 - 1) = Fin (961 / 60) \<and>
   stehfest_formula_ceiling 12 2 = 16 \<and>
   stehfestCoeffs 12 ! (2 - 1) \<noteq> Fin (stehfest_formula_ceiling 12 2) \<and>
   stehfestCoeffs 122 ! (122 - 1) = NInf \<and>
   factorial 171 = PInf"
proof -
  have "stehfestCoeffs 12 ! (2 - 1) = Fin (stehfest_formula_floor 12 2)"
    by (rule stehfestCoeffs_nth) simp_all
  moreover have "stehfest_formula_floor 12 2 = 961 / 60"
    by (simp add: stehfest_formula_floor_def stehfest_term_def sum.atLeast_Suc_atMost
        fact_numeral)
  moreover have "stehfest_formula_ceiling 12 2 = 16"
    by (simp add: stehfest_formula_ceiling_def stehfest_term_def fact_numeral)
  ultimately show ?thesis
    using stehfestCoeffs_122_overflow factorial_171 by simp
qed

section \<open>The inverse Laplace transform engine\<close>

lemma inverseLaplace_loop_eq:
  "i \<le> STEHFEST_N \<Longrightarrow>
   inverseLaplace_loop F c i a =
     a + (\<Sum>j = i..<STEHFEST_N. coeffs ! j * F (Fin (real (j + 1)) * c))"
proof (induction F c i a rule: inverseLaplace_loop.induct)
  case (1 F c i a)
  show ?case
  proof (cases "i < STEHFEST_N")
    case True
    then have "inverseLaplace_loop F c i a =
        inverseLaplace_loop F c (i + 1) (a + coeffs ! i * F (Fin (real (i + 1)) * c))"
      by (subst inverseLaplace_loop.simps) (simp add: Let_def)
    also have "\<dots> = (a + coeffs ! i * F (Fin (real (i + 1)) * c)) +
        (\<Sum>j = i + 1..<STEHFEST_N. coeffs ! j * F (Fin (real (j + 1)) * c))"
      using True by (intro "1.IH") simp_all
    also have "\<dots> = a + (\<Sum>j = i..<STEHFEST_N. coeffs ! j * F (Fin (real (j + 1)) * c))"
      using True by (simp add: sum.atLeast_Suc_lessThan add.assoc)
    finally show ?thesis .
  next
    case False
    then show ?thesis
      by (subst inverseLaplace_loop.simps) simp
  qed
qed

lemma inverseLaplace_pos:
  assumes "0 < t"
  shows "inverseLaplace F t =
    (LN2 / t) * (\<Sum>i = 1..STEHFEST_N. coeffs ! (i - 1) * F (Fin (real i) * (LN2 / t)))"
proof -
  have "(\<Sum>j = 0..<STEHFEST_N. coeffs ! j * F (Fin (real (j + 1)) * (LN2 / t)))
      = (\<Sum>i = 1..STEHFEST_N. coeffs ! (i - 1) * F (Fin (real i) * (LN2 / t)))"
    by (rule sum.reindex_bij_witness [where i = "\<lambda>i. i - 1" and j = "\<lambda>j. j + 1"]) auto
  then show ?thesis
    using assms
    by (simp add: inverseLaplace_def jsnum_less_not_le Let_def inverseLaplace_loop_eq
        times_jsnum_commute)
qed

text \<open>
  C6: for every \<open>F\<close>, \<open>inverseLaplace F t\<close> is \<open>0\<close> when \<open>t \<le> 0\<close>; when
  \<open>t > 0\<close> it is \<open>c \<cdot> \<Sum> V\<^sub>i \<cdot> F(i\<cdot>c)\<close> over \<open>i = 1..12\<close>, with
  \<open>c = ln 2 / t\<close> and \<open>V\<^sub>i\<close> the \<open>i\<close>-th of the twelve Stehfest coefficients.
\<close>

theorem inverseLaplace_stehfest_sum:
  "(t \<le> 0 \<longrightarrow> inverseLaplace F t = 0) \<and>
   (0 < t \<longrightarrow> inverseLaplace F t =
      (Fin (ln 2) / t) *
        (\<Sum>i = 1..12. stehfestCoeffs 12 ! (i - 1) * F (Fin (real i) * (Fin (ln 2) / t))))"
proof (intro conjI impI)
  assume "t \<le> 0"
  then show "inverseLaplace F t = 0"
    by (simp add: inverseLaplace_def)
next
  assume "0 < t"
  from inverseLaplace_pos [OF this, of F]
  show "inverseLaplace F t =
      (Fin (ln 2) / t) *
        (\<Sum>i = 1..12. stehfestCoeffs 12 ! (i - 1) * F (Fin (real i) * (Fin (ln 2) / t)))"
    by (simp add: STEHFEST_N_def coeffs_def LN2_def)
qed

theorem inverseLaplace_stehfest_sum_witness:
  "(Fin 0 \<le> 0 \<and> inverseLaplace (\<lambda>s. 1 / s) (Fin 0) = 0) \<and>
   (0 < Fin 1 \<and> inverseLaplace (\<lambda>s. 1 / s) (Fin 1) =
      (Fin (ln 2) / Fin 1) *
        (\<Sum>i = 1..12. stehfestCoeffs 12 ! (i - 1) * (1 / (Fin (real i) * (Fin (ln 2) / Fin 1)))))"
proof -
  have a: "Fin 0 \<le> 0" and b: "0 < Fin 1"
    by (simp_all add: zero_jsnum_def)
  from inverseLaplace_stehfest_sum [of "Fin 0" "\<lambda>s. 1 / s"] a
  have "inverseLaplace (\<lambda>s. 1 / s) (Fin 0) = 0"
    by blast
  moreover from inverseLaplace_stehfest_sum [of "Fin 1" "\<lambda>s. 1 / s"] b
  have "inverseLaplace (\<lambda>s. 1 / s) (Fin 1) =
      (Fin (ln 2) / Fin 1) *
        (\<Sum>i = 1..12. stehfestCoeffs 12 ! (i - 1) * (1 / (Fin (real i) * (Fin (ln 2) / Fin 1))))"
    by blast
  ultimately show ?thesis
    using a b by blast
qed

section \<open>The response at one time\<close>

text \<open>
  C1, as the code has it: for every \<open>t > 0\<close>, \<open>creepAtTime\<close> inverts the function
  \<open>F\<close> with \<open>F(s) = \<sigma>\<^sub>0 / (s\<cdot>Z(s))\<close> where \<open>Z(s) \<noteq> 0\<close>; where
  \<open>Z(s) = 0\<close> the value of \<open>F\<close> is itself the sentinel: \<open>F(s) = 1e30\<close>.
\<close>

theorem creepAtTime_inverts_creep_F:
  "0 < t \<Longrightarrow>
   creepAtTime model t sigma0 = inverseLaplace (creep_F model sigma0) t \<and>
   (\<forall>s. creep_F model sigma0 s =
      (if impedance model s = 0 then Fin (10 ^ 30) else sigma0 / (s * impedance model s)))"
  by (simp add: creepAtTime_def creep_F_def jsnum_less_not_le Let_def)

theorem creepAtTime_inverts_creep_F_witness:
  "0 < Fin 1 \<and>
   creepAtTime (Series [Spring (Fin 100), Dashpot (Fin 50)]) (Fin 1) (Fin 1) =
     inverseLaplace (creep_F (Series [Spring (Fin 100), Dashpot (Fin 50)]) (Fin 1)) (Fin 1) \<and>
   (\<forall>s. creep_F (Series [Spring (Fin 100), Dashpot (Fin 50)]) (Fin 1) s =
      (if impedance (Series [Spring (Fin 100), Dashpot (Fin 50)]) s = 0 then Fin (10 ^ 30)
       else Fin 1 / (s * impedance (Series [Spring (Fin 100), Dashpot (Fin 50)]) s)))"
proof -
  have p: "0 < Fin 1"
    by (simp add: zero_jsnum_def)
  from creepAtTime_inverts_creep_F [OF p] p show ?thesis
    by blast
qed

text \<open>
  The claim C1 as the specification states it, with \<open>F(s) = \<sigma>\<^sub>0 / (s\<cdot>1e30)\<close>
  where \<open>Z(s) = 0\<close>, fails: a series node over a spring of modulus \<open>1e-31\<close> has
  impedance \<open>0\<close>, and for \<open>\<sigma>\<^sub>0 = 1\<close> and \<open>s = 1\<close> the function passed to
  \<open>inverseLaplace\<close> returns \<open>1e30\<close>, not \<open>1 / (1\<cdot>1e30)\<close>.
\<close>

theorem creep_F_sentinel_counterexample:
  "impedance (Series [Spring (Fin (1 / 10 ^ 31))]) (Fin 1) = 0 \<and>
   creep_F (Series [Spring (Fin (1 / 10 ^ 31))]) (Fin 1) (Fin 1) = Fin (10 ^ 30) \<and>
   creep_F (Series [Spring (Fin (1 / 10 ^ 31))]) (Fin 1) (Fin 1) \<noteq> Fin 1 / (Fin 1 * Fin (10 ^ 30))"
  by (simp add: creep_F_def tiny_def Let_def)

text \<open>
  C7: for every model tree and every \<open>t \<le> 0\<close>, the base creep value is
  \<open>\<sigma>\<^sub>0 / Z\<close> with \<open>Z\<close> the impedance at \<open>s = 1e12\<close>, or \<open>0\<close> when \<open>Z = 0\<close>,
  and the base relaxation value is \<open>\<epsilon>\<^sub>0 \<cdot> Z\<close> with the same probe; the
  instantaneous-elastic terms probe at \<open>s = 1e15\<close>, a different frequency.
\<close>

theorem base_response_at_nonpositive_time:
  "t \<le> 0 \<Longrightarrow>
   creepAtTime model t sigma0 =
     (if impedance model (Fin (10 ^ 12)) = 0 then 0
      else sigma0 / impedance model (Fin (10 ^ 12))) \<and>
   relaxAtTime model t eps0 = eps0 * impedance model (Fin (10 ^ 12)) \<and>
   instantElasticStrain model sigma0 =
     (if impedance model (Fin (10 ^ 15)) = 0 then 0
      else sigma0 / impedance model (Fin (10 ^ 15))) \<and>
   instantElasticStress model eps0 = eps0 * impedance model (Fin (10 ^ 15)) \<and>
   Fin (10 ^ 12) \<noteq> Fin (10 ^ 15)"
  by (simp add: creepAtTime_def relaxAtTime_def instantElasticStrain_def
      instantElasticStress_def Let_def)

theorem base_response_at_nonpositive_time_witness:
  "Fin 0 \<le> 0 \<and>
   creepAtTime (Series [Spring (Fin 100), Dashpot (Fin 50)]) (Fin 0) (Fin 1) =
     Fin (1 / 100 + 1 / (50 * 10 ^ 12)) \<and>
   relaxAtTime (Series [Spring (Fin 100), Dashpot (Fin 50)]) (Fin 0) (Fin 1) =
     Fin (1 / (1 / 100 + 1 / (50 * 10 ^ 12)))"
proof -
  have p: "Fin 0 \<le> 0"
    by (simp add: zero_jsnum_def)
  have z: "impedance (Series [Spring (Fin 100), Dashpot (Fin 50)]) (Fin (10 ^ 12)) =
      Fin (1 / (1 / 100 + 1 / (50 * 10 ^ 12)))"
    by (simp add: tiny_def Let_def zero_jsnum_def one_jsnum_def strict_eq_def)
  from base_response_at_nonpositive_time
    [OF p, of "Series [Spring (Fin 100), Dashpot (Fin 50)]" "Fin 1" "Fin 1"]
  show ?thesis
    unfolding z using p by (simp add: zero_jsnum_def)
qed

section \<open>The response sampler\<close>

lemma sample_body_append:
  "sample_body R m d T n tr i data = data @ sample_body R m d T n tr i []"
  by (simp add: sample_body_def Let_def split: option.split)

lemma sample_loop_eq:
  "sample_loop R m d T n tr i data =
     data @ concat (map (\<lambda>j. sample_body R m d T n tr j []) [i..<Suc n])"
proof (induction R m d T n tr i data rule: sample_loop.induct)
  case (1 R m d T n tr i data)
  show ?case
  proof (cases "i \<le> n")
    case True
    have "sample_loop R m d T n tr i data =
        sample_loop R m d T n tr (i + 1) (sample_body R m d T n tr i data)"
      using True by (subst sample_loop.simps) simp
    also have "\<dots> = sample_body R m d T n tr i data @
        concat (map (\<lambda>j. sample_body R m d T n tr j []) [i + 1..<Suc n])"
      by (rule "1.IH" [OF True])
    also have "\<dots> = data @ sample_body R m d T n tr i [] @
        concat (map (\<lambda>j. sample_body R m d T n tr j []) [Suc i..<Suc n])"
      by (subst sample_body_append) simp
    also have "\<dots> = data @ concat (map (\<lambda>j. sample_body R m d T n tr j []) [i..<Suc n])"
    proof -
      have "[i..<Suc n] = i # [Suc i..<Suc n]"
        using True by (intro upt_conv_Cons) simp
      then show ?thesis
        by (simp only: list.map concat.simps)
    qed
    finally show ?thesis .
  next
    case False
    then show ?thesis
      by (subst sample_loop.simps) simp
  qed
qed

lemma concat_map_singleton: "concat (map (\<lambda>j. [f j]) xs) = map f xs"
  by (induction xs) simp_all

lemma sample_loop_no_removal:
  "sample_loop R m d T n None 0 [] =
     map (\<lambda>i. regular_point R m None (grid_time T n i)) [0..<Suc n]"
proof -
  have "\<And>j. sample_body R m d T n None j [] = [regular_point R m None (grid_time T n j)]"
    by (simp add: sample_body_def)
  then show ?thesis
    by (simp only: sample_loop_eq append_Nil concat_map_singleton)
qed

lemma grid_time_Fin: "0 < n \<Longrightarrow> grid_time (Fin T) n i = Fin (real i / real n * T)"
  by (simp add: grid_time_def)

lemma crossing_index:
  fixes T t1 :: real
  assumes "0 < T" "0 < n" "0 < t1" "t1 < T"
  shows "(0 < i \<and> real (i - 1) / real n * T < t1 \<and> t1 \<le> real i / real n * T)
         \<longleftrightarrow> i = nat \<lceil>t1 * real n / T\<rceil>"
proof -
  define x where "x = t1 * real n / T"
  have xpos: "0 < x"
    using assms by (simp add: x_def)
  have a: "\<And>j::nat. (t1 \<le> real j / real n * T) = (x \<le> real j)"
    using assms by (simp add: x_def field_simps)
  have b: "\<And>j::nat. (real j / real n * T < t1) = (real j < x)"
    using assms by (simp add: x_def field_simps)
  have c1: "1 \<le> \<lceil>x\<rceil>"
    using xpos by linarith
  have "(0 < i \<and> real (i - 1) < x \<and> x \<le> real i) \<longleftrightarrow> i = nat \<lceil>x\<rceil>"
  proof
    assume h: "0 < i \<and> real (i - 1) < x \<and> x \<le> real i"
    then have "x \<le> real_of_int (int i)" by (simp only: of_int_of_nat_eq)
    then have "\<lceil>x\<rceil> \<le> int i" by (rule ceiling_le)
    moreover from h have "real_of_int (int (i - 1)) < x" by (simp only: of_int_of_nat_eq)
    then have "int (i - 1) < \<lceil>x\<rceil>" by (simp only: less_ceiling_iff)
    ultimately show "i = nat \<lceil>x\<rceil>" using h by linarith
  next
    assume h: "i = nat \<lceil>x\<rceil>"
    then have i: "int i = \<lceil>x\<rceil>" using c1 by simp
    have "0 < i" using h c1 by simp
    moreover have "x \<le> real i"
      using i by (metis le_of_int_ceiling of_int_of_nat_eq)
    moreover have "real (i - 1) < x"
    proof -
      have "int (i - 1) < \<lceil>x\<rceil>" using i \<open>0 < i\<close> by linarith
      then have "real_of_int (int (i - 1)) < x" by (simp only: less_ceiling_iff)
      then show ?thesis by (simp only: of_int_of_nat_eq)
    qed
    ultimately show "0 < i \<and> real (i - 1) < x \<and> x \<le> real i" by simp
  qed
  then show ?thesis
    unfolding a b x_def .
qed

lemma crossing_index_le:
  fixes T t1 :: real
  assumes "0 < T" "0 < n" "0 < t1" "t1 < T"
  shows "nat \<lceil>t1 * real n / T\<rceil> \<le> n"
proof -
  have "t1 * real n / T \<le> real n"
    using assms by (simp add: field_simps)
  then have "t1 * real n / T \<le> real_of_int (int n)"
    by (simp only: of_int_of_nat_eq)
  then have "\<lceil>t1 * real n / T\<rceil> \<le> int n"
    by (rule ceiling_le)
  then show ?thesis by (simp only: nat_le_iff)
qed


lemma sample_body_unload:
  fixes T t1 :: real
  assumes "0 < T" "0 < n" "0 < t1" "t1 < T"
  shows "sample_body R m d (Fin T) n (Some (Fin t1)) i [] =
    (if i = nat \<lceil>t1 * real n / T\<rceil> then
       [\<lparr>pt_t = toFixed6 (Fin t1), pt_value = toFixed6 (R (Fin t1)), pt_load = m\<rparr>,
        \<lparr>pt_t = toFixed6 (Fin t1), pt_value = toFixed6 (R (Fin t1) - d), pt_load = 0\<rparr>] @
       (if \<bar>grid_time (Fin T) n i - Fin t1\<bar> < (Fin T / Fin (real n)) * Fin (1 / 2) then []
        else [regular_point R m (Some (Fin t1)) (grid_time (Fin T) n i)])
     else [regular_point R m (Some (Fin t1)) (grid_time (Fin T) n i)])"
proof -
  have "(0 < i \<and> grid_time (Fin T) n (i - 1) < Fin t1 \<and> Fin t1 \<le> grid_time (Fin T) n i)
      = (i = nat \<lceil>t1 * real n / T\<rceil>)"
    unfolding grid_time_Fin [OF assms(2)] less_jsnum.simps less_eq_jsnum.simps
    by (rule crossing_index [OF assms])
  then show ?thesis
    unfolding sample_body_def Let_def option.case by simp
qed

lemma crossing_step_iff:
  fixes T t1 :: real
  assumes "0 < T" "0 < n" "0 < t1" "t1 < T"
  shows "crossing_step (Fin T) n (Fin t1) i \<longleftrightarrow> i = nat \<lceil>t1 * real n / T\<rceil>"
proof -
  have "(0 < i \<and> grid_time (Fin T) n (i - 1) < Fin t1 \<and> Fin t1 \<le> grid_time (Fin T) n i)
      = (i = nat \<lceil>t1 * real n / T\<rceil>)"
    unfolding grid_time_Fin [OF assms(2)] less_jsnum.simps less_eq_jsnum.simps
    by (rule crossing_index [OF assms])
  then show ?thesis
    using crossing_index_le [OF assms] unfolding crossing_step_def by blast
qed

lemma sample_loop_unload:
  fixes T t1 :: real
  assumes "0 < T" "0 < n" "0 < t1" "t1 < T" and c: "crossing_step (Fin T) n (Fin t1) c"
  shows "sample_loop R m d (Fin T) n (Some (Fin t1)) 0 [] =
     unload_series R m d (Fin T) n (Fin t1) c"
proof -
  let ?step = "\<lambda>j. sample_body R m d (Fin T) n (Some (Fin t1)) j []"
  let ?reg = "\<lambda>i. regular_point R m (Some (Fin t1)) (grid_time (Fin T) n i)"
  have ceq: "c = nat \<lceil>t1 * real n / T\<rceil>"
    using c crossing_step_iff [OF assms(1-4)] by simp
  have cn: "c \<le> n"
    using c by (simp add: crossing_step_def)
  have split: "[0..<Suc n] = [0..<c] @ c # [Suc c..<Suc n]"
  proof -
    have "[0..<c + (Suc n - c)] = [0..<c] @ [c..<c + (Suc n - c)]"
      by (rule upt_add_eq_append) simp
    moreover have "[c..<Suc n] = c # [Suc c..<Suc n]"
      using cn by (intro upt_conv_Cons) simp
    ultimately show ?thesis using cn by simp
  qed
  have other: "\<And>j. j \<noteq> c \<Longrightarrow> ?step j = [?reg j]"
    unfolding ceq by (subst sample_body_unload [OF assms(1-4)]) simp
  have before: "map ?step [0..<c] = map (\<lambda>j. [?reg j]) [0..<c]"
    by (rule map_cong) (auto simp: other)
  have after: "map ?step [Suc c..<Suc n] = map (\<lambda>j. [?reg j]) [Suc c..<Suc n]"
    by (rule map_cong) (auto simp: other)
  have at: "?step c =
       [\<lparr>pt_t = toFixed6 (Fin t1), pt_value = toFixed6 (R (Fin t1)), pt_load = m\<rparr>,
        \<lparr>pt_t = toFixed6 (Fin t1), pt_value = toFixed6 (R (Fin t1) - d), pt_load = 0\<rparr>] @
       (if \<bar>grid_time (Fin T) n c - Fin t1\<bar> < (Fin T / Fin (real n)) * Fin (1 / 2) then []
        else [?reg c])"
    unfolding ceq by (subst sample_body_unload [OF assms(1-4)]) simp
  have "sample_loop R m d (Fin T) n (Some (Fin t1)) 0 [] = concat (map ?step [0..<Suc n])"
    by (simp only: sample_loop_eq append_Nil)
  also have "\<dots> = concat (map ?step [0..<c]) @ ?step c @ concat (map ?step [Suc c..<Suc n])"
    unfolding split by simp
  also have "\<dots> = unload_series R m d (Fin T) n (Fin t1) c"
    unfolding before after at concat_map_singleton unload_series_def by simp
  finally show ?thesis .
qed

lemma toFixed6_nonneg_eq:
  assumes "0 \<le> x"
  shows "toFixed6 (Fin x) =
    (if 10 ^ 21 \<le> x then Fin x else Fin (real_of_int \<lfloor>x * 10 ^ 6 + 1 / 2\<rfloor> / 10 ^ 6))"
proof (cases "x = 0")
  case True
  then show ?thesis by (simp add: toFixed6.simps)
next
  case False
  with assms have "0 < x" by simp
  then show ?thesis by (simp add: toFixed6.simps)
qed

lemma toFixed6_mono:
  assumes "0 \<le> x" "x \<le> y"
  shows "toFixed6 (Fin x) \<le> toFixed6 (Fin y)"
proof -
  have y: "0 \<le> y" using assms by simp
  note ex = toFixed6_nonneg_eq [OF assms(1)]
  note ey = toFixed6_nonneg_eq [OF y]
  consider "y < 10 ^ 21" | "x < 10 ^ 21" "10 ^ 21 \<le> y" | "10 ^ 21 \<le> x"
    by linarith
  then show ?thesis
  proof cases
    case 1
    then have x: "x < 10 ^ 21" using assms by simp
    have "\<lfloor>x * 10 ^ 6 + 1 / 2\<rfloor> \<le> \<lfloor>y * 10 ^ 6 + 1 / 2\<rfloor>"
      using assms by (intro floor_mono) simp
    then have "real_of_int \<lfloor>x * 10 ^ 6 + 1 / 2\<rfloor> / 10 ^ 6
             \<le> real_of_int \<lfloor>y * 10 ^ 6 + 1 / 2\<rfloor> / 10 ^ 6"
      by (intro divide_right_mono) simp_all
    moreover have "\<not> 10 ^ 21 \<le> x" "\<not> 10 ^ 21 \<le> y"
      using 1 x by simp_all
    ultimately show ?thesis
      by (simp only: ex ey if_False less_eq_jsnum.simps)
  next
    case 2
    have "x * 10 ^ 6 + 1 / 2 < real_of_int (10 ^ 27 + 1)"
      using 2(1) by simp
    then have "\<lfloor>x * 10 ^ 6 + 1 / 2\<rfloor> < 10 ^ 27 + 1"
      by (simp only: floor_less_iff)
    then have "\<lfloor>x * 10 ^ 6 + 1 / 2\<rfloor> \<le> 10 ^ 27"
      by simp
    then have "real_of_int \<lfloor>x * 10 ^ 6 + 1 / 2\<rfloor> \<le> real_of_int (10 ^ 27)"
      by (simp only: of_int_le_iff)
    then have "real_of_int \<lfloor>x * 10 ^ 6 + 1 / 2\<rfloor> / 10 ^ 6 \<le> 10 ^ 21"
      by simp
    then have "real_of_int \<lfloor>x * 10 ^ 6 + 1 / 2\<rfloor> / 10 ^ 6 \<le> y"
      using 2(2) by (rule order_trans)
    moreover have "\<not> 10 ^ 21 \<le> x"
      using 2(1) by simp
    ultimately show ?thesis
      using 2(2) by (simp only: ex ey if_False if_True less_eq_jsnum.simps)
  next
    case 3
    then have "10 ^ 21 \<le> y" using assms by simp
    then show ?thesis
      using 3 assms(2) by (simp only: ex ey if_True less_eq_jsnum.simps)
  qed
qed

lemma pt_t_regular_point [simp]: "pt_t (regular_point R m tr t) = toFixed6 t"
  by (simp add: regular_point_def split: option.split)

lemma grid_times_sorted:
  fixes T :: real
  assumes "0 < T" "0 < n"
  shows "sorted_wrt (\<lambda>a b. pt_t a \<le> pt_t b)
           (map (\<lambda>i. regular_point R m tr (grid_time (Fin T) n i)) [a..<b])"
proof -
  have "\<And>i j. i < j \<Longrightarrow>
      toFixed6 (Fin (real i / real n * T)) \<le> toFixed6 (Fin (real j / real n * T))"
    using assms by (intro toFixed6_mono) (simp_all add: divide_right_mono mult_right_mono)
  then have "sorted_wrt (\<lambda>i j. toFixed6 (Fin (real i / real n * T))
                              \<le> toFixed6 (Fin (real j / real n * T))) [a..<b]"
    by (intro sorted_wrt_mono_rel [OF _ sorted_wrt_upt]) simp
  then show ?thesis
    by (simp add: sorted_wrt_map grid_time_Fin [OF assms(2)])
qed


lemma sorted_wrt_appendI:
  "sorted_wrt P xs \<Longrightarrow> sorted_wrt P ys \<Longrightarrow>
   (\<And>x y. x \<in> set xs \<Longrightarrow> y \<in> set ys \<Longrightarrow> P x y) \<Longrightarrow> sorted_wrt P (xs @ ys)"
  by (simp add: sorted_wrt_append)

lemma unload_series_sorted:
  fixes T t1 :: real
  assumes "0 < T" "0 < n" "0 < t1" "t1 < T" and c: "crossing_step (Fin T) n (Fin t1) c"
  shows "sorted_wrt (\<lambda>a b. pt_t a \<le> pt_t b) (unload_series R m d (Fin T) n (Fin t1) c)"
proof -
  let ?g = "\<lambda>i. real i / real n * T"
  let ?G = "grid_time (Fin T) n"
  let ?reg = "\<lambda>i. regular_point R m (Some (Fin t1)) (?G i)"
  let ?A = "map ?reg [0..<c]"
  let ?S = "[\<lparr>pt_t = toFixed6 (Fin t1), pt_value = toFixed6 (R (Fin t1)), pt_load = m\<rparr>,
             \<lparr>pt_t = toFixed6 (Fin t1), pt_value = toFixed6 (R (Fin t1) - d), pt_load = 0\<rparr>]"
  let ?M = "if \<bar>?G c - Fin t1\<bar> < (Fin T / Fin (real n)) * Fin (1 / 2) then [] else [?reg c]"
  let ?B = "map ?reg [Suc c..<Suc n]"
  let ?P = "\<lambda>a b. pt_t a \<le> pt_t b"
  have G: "\<And>i. ?G i = Fin (?g i)"
    by (rule grid_time_Fin [OF assms(2)])
  have mono: "\<And>i j. i \<le> j \<Longrightarrow> ?g i \<le> ?g j"
    using assms by (simp add: divide_right_mono mult_right_mono)
  have nonneg: "\<And>i. 0 \<le> ?g i"
    using assms by simp
  have lo: "?g (c - 1) < t1" and hi: "t1 \<le> ?g c"
    using c [unfolded crossing_step_def G less_jsnum.simps less_eq_jsnum.simps]
    by blast+
  have grid: "\<And>i j. i \<le> j \<Longrightarrow> toFixed6 (?G i) \<le> toFixed6 (?G j)"
    unfolding G using nonneg by (intro toFixed6_mono mono)
  have below: "\<And>i. i < c \<Longrightarrow> toFixed6 (?G i) \<le> toFixed6 (Fin t1)"
  proof -
    fix i assume "i < c"
    then have "?g i \<le> ?g (c - 1)" by (intro mono) simp
    with lo have "?g i \<le> t1" by simp
    with nonneg [of i] show "toFixed6 (?G i) \<le> toFixed6 (Fin t1)"
      unfolding G by (intro toFixed6_mono)
  qed
  have above: "\<And>j. c \<le> j \<Longrightarrow> toFixed6 (Fin t1) \<le> toFixed6 (?G j)"
  proof -
    fix j assume "c \<le> j"
    then have "?g c \<le> ?g j" by (rule mono)
    with hi have "t1 \<le> ?g j" by simp
    with assms(3) show "toFixed6 (Fin t1) \<le> toFixed6 (?G j)"
      unfolding G by (intro toFixed6_mono) simp_all
  qed
  have self: "toFixed6 (Fin t1) \<le> toFixed6 (Fin t1)"
    using assms(3) by (intro toFixed6_mono) simp_all
  have tA: "\<And>a. a \<in> set ?A \<Longrightarrow> \<exists>i<c. pt_t a = toFixed6 (?G i)"
    by auto
  have tB: "\<And>b. b \<in> set ?B \<Longrightarrow> \<exists>j\<ge>c. pt_t b = toFixed6 (?G j)"
  proof -
    fix b assume "b \<in> set ?B"
    then obtain j where "Suc c \<le> j" "b = ?reg j"
      by (auto simp del: upt_Suc)
    then show "\<exists>j\<ge>c. pt_t b = toFixed6 (?G j)"
      by (intro exI [of _ j]) simp
  qed
  have tM: "\<And>b. b \<in> set ?M \<Longrightarrow> pt_t b = toFixed6 (?G c)"
    by (auto split: if_splits)
  have tS: "\<And>b. b \<in> set ?S \<Longrightarrow> pt_t b = toFixed6 (Fin t1)"
    by auto
  have sA: "sorted_wrt ?P ?A" and sB: "sorted_wrt ?P ?B"
    by (rule grid_times_sorted [OF assms(1,2)])+
  have sM: "sorted_wrt ?P ?M"
    by simp
  have sS: "sorted_wrt ?P ?S"
    using self by simp
  have sMB: "sorted_wrt ?P (?M @ ?B)"
  proof (rule sorted_wrt_appendI [OF sM sB])
    fix x y assume "x \<in> set ?M" "y \<in> set ?B"
    then show "pt_t x \<le> pt_t y"
      using tM [of x] tB [of y] grid by metis
  qed
  have tMB: "\<And>b. b \<in> set (?M @ ?B) \<Longrightarrow> \<exists>j\<ge>c. pt_t b = toFixed6 (?G j)"
    using tM tB unfolding set_append by (metis Un_iff order_refl)
  have sSMB: "sorted_wrt ?P (?S @ ?M @ ?B)"
  proof (rule sorted_wrt_appendI [OF sS sMB])
    fix x y assume "x \<in> set ?S" "y \<in> set (?M @ ?B)"
    then show "pt_t x \<le> pt_t y"
      using tS [of x] tMB [of y] above by metis
  qed
  have tSMB: "\<And>b. b \<in> set (?S @ ?M @ ?B) \<Longrightarrow>
      pt_t b = toFixed6 (Fin t1) \<or> (\<exists>j\<ge>c. pt_t b = toFixed6 (?G j))"
    using tS tMB unfolding set_append [of ?S] by (metis Un_iff)
  have "sorted_wrt ?P (?A @ ?S @ ?M @ ?B)"
  proof (rule sorted_wrt_appendI [OF sA sSMB])
    fix x y assume x: "x \<in> set ?A" and y: "y \<in> set (?S @ ?M @ ?B)"
    from tA [OF x] obtain i where i: "i < c" "pt_t x = toFixed6 (?G i)"
      by blast
    from tSMB [OF y] show "pt_t x \<le> pt_t y"
    proof
      assume "pt_t y = toFixed6 (Fin t1)"
      then show ?thesis using i below by simp
    next
      assume "\<exists>j\<ge>c. pt_t y = toFixed6 (?G j)"
      then obtain j where "c \<le> j" "pt_t y = toFixed6 (?G j)" by blast
      then show ?thesis using i grid [of i j] by simp
    qed
  qed
  then show ?thesis
    unfolding unload_series_def .
qed


lemma sample_loop_sorted:
  fixes T :: real
  assumes "0 < T" "0 < n"
    and "tRemoval = None \<or> (\<exists>t1. tRemoval = Some (Fin t1) \<and> 0 < t1 \<and> t1 < T)"
  shows "sorted_wrt (\<le>) (map pt_t (sample_loop R m d (Fin T) n tRemoval 0 []))"
proof -
  from assms(3) have "sorted_wrt (\<lambda>a b. pt_t a \<le> pt_t b) (sample_loop R m d (Fin T) n tRemoval 0 [])"
  proof
    assume "tRemoval = None"
    then show ?thesis
      by (simp only: sample_loop_no_removal grid_times_sorted [OF assms(1,2)])
  next
    assume "\<exists>t1. tRemoval = Some (Fin t1) \<and> 0 < t1 \<and> t1 < T"
    then obtain t1 where t: "tRemoval = Some (Fin t1)" "0 < t1" "t1 < T"
      by blast
    have c: "crossing_step (Fin T) n (Fin t1) (nat \<lceil>t1 * real n / T\<rceil>)"
      by (simp only: crossing_step_iff [OF assms(1,2) t(2,3)])
    show ?thesis
      unfolding t(1) sample_loop_unload [OF assms(1,2) t(2,3) c]
      by (rule unload_series_sorted [OF assms(1,2) t(2,3) c])
  qed
  then show ?thesis
    by (simp only: sorted_wrt_map)
qed

lemma sum_Fin: "finite A \<Longrightarrow> (\<Sum>i\<in>A. Fin (f i)) = Fin (\<Sum>i\<in>A. f i)"
  by (induction A rule: finite_induct) (simp_all add: zero_jsnum_def)

lemma inverseLaplace_const_finite:
  fixes \<tau> :: real
  assumes "0 < \<tau>"
  shows "\<exists>x. inverseLaplace (\<lambda>s. Fin k) (Fin \<tau>) = Fin x"
proof -
  have p: "0 < Fin \<tau>"
    using assms by (simp add: zero_jsnum_def)
  have "(\<Sum>i = 1..STEHFEST_N. coeffs ! (i - 1) * Fin k)
      = (\<Sum>i = 1..STEHFEST_N. Fin (stehfest_formula_floor STEHFEST_N i * k))"
  proof (rule sum.cong)
    fix i assume "i \<in> {1..STEHFEST_N}"
    then have "coeffs ! (i - 1) = Fin (stehfest_formula_floor STEHFEST_N i)"
      unfolding coeffs_def by (intro stehfestCoeffs_nth) (simp_all add: STEHFEST_N_def)
    then show "coeffs ! (i - 1) * Fin k = Fin (stehfest_formula_floor STEHFEST_N i * k)"
      by simp
  qed simp
  also have "\<dots> = Fin (\<Sum>i = 1..STEHFEST_N. stehfest_formula_floor STEHFEST_N i * k)"
    by (rule sum_Fin) simp
  finally show ?thesis
    using assms by (simp add: inverseLaplace_pos [OF p] LN2_def)
qed



subsection \<open>The sampler with rounding\<close>

lemma sample_body_fl_append:
  "sample_body_fl rnd R m d T n tr i data = data @ sample_body_fl rnd R m d T n tr i []"
  by (simp add: sample_body_fl_def Let_def split: option.split)

lemma sample_loop_fl_eq:
  "sample_loop_fl rnd R m d T n tr i data =
     data @ concat (map (\<lambda>j. sample_body_fl rnd R m d T n tr j []) [i..<Suc n])"
proof (induction "Suc n - i" arbitrary: i data)
  case 0
  then have "\<not> i \<le> n" by simp
  then show ?case
    by (subst sample_loop_fl.simps) simp
next
  case (Suc k)
  then have le: "i \<le> n" by simp
  have u: "[i..<Suc n] = i # [Suc i..<Suc n]"
    using le by (intro upt_conv_Cons) simp
  have "sample_loop_fl rnd R m d T n tr i data =
      sample_loop_fl rnd R m d T n tr (i + 1) (sample_body_fl rnd R m d T n tr i data)"
    using le by (subst sample_loop_fl.simps) simp
  also have "\<dots> = sample_body_fl rnd R m d T n tr i data @
      concat (map (\<lambda>j. sample_body_fl rnd R m d T n tr j []) [i + 1..<Suc n])"
    using Suc.hyps(2) by (intro Suc.hyps(1)) simp
  also have "\<dots> = data @ concat (map (\<lambda>j. sample_body_fl rnd R m d T n tr j []) [i..<Suc n])"
    unfolding u by (subst sample_body_fl_append) simp
  finally show ?case .
qed

lemma grid_time_fl_Fin:
  "0 < n \<Longrightarrow> grid_time_fl rnd (Fin T) n i = Fin (rnd (rnd (real i / real n) * T))"
  by (simp add: grid_time_fl_def fl_def)

lemma grid_fl_mono:
  assumes "mono rnd" "0 < T" "i \<le> j"
  shows "rnd (rnd (real i / real n) * T) \<le> rnd (rnd (real j / real n) * T)"
proof -
  have "real i / real n \<le> real j / real n"
    using assms(3) by (simp add: divide_right_mono)
  then have "rnd (real i / real n) \<le> rnd (real j / real n)"
    by (rule monoD [OF assms(1)])
  then have "rnd (real i / real n) * T \<le> rnd (real j / real n) * T"
    using assms(2) by (intro mult_right_mono) simp_all
  then show ?thesis
    by (rule monoD [OF assms(1)])
qed

lemma crossing_fl_index:
  fixes T t1 :: real
  assumes rnd: "mono rnd" "rnd 0 = 0" "rnd 1 = 1" "rnd T = T"
    and v: "0 < T" "0 < n" "0 < t1" "t1 < T"
  defines "g \<equiv> \<lambda>i. rnd (rnd (real i / real n) * T)"
  shows "(0 < i \<and> g (i - 1) < t1 \<and> t1 \<le> g i) \<longleftrightarrow> i = (LEAST j. t1 \<le> g j)"
    and "(LEAST j. t1 \<le> g j) \<le> n"
proof -
  let ?c = "LEAST j. t1 \<le> g j"
  have g0: "g 0 = 0"
    by (simp add: g_def rnd)
  have gn: "g n = T"
    using v(2) by (simp add: g_def rnd)
  have mono: "\<And>a b. a \<le> b \<Longrightarrow> g a \<le> g b"
    unfolding g_def by (rule grid_fl_mono [OF rnd(1) v(1)])
  have Pn: "t1 \<le> g n"
    using gn v(4) by simp
  have Pc: "t1 \<le> g ?c"
    using Pn by (rule LeastI)
  show cn: "?c \<le> n"
    using Pn by (rule Least_le)
  have c0: "0 < ?c"
  proof (rule ccontr)
    assume "\<not> 0 < ?c"
    then have "?c = 0" by simp
    with Pc g0 v(3) show False by simp
  qed
  have below: "g (?c - 1) < t1"
  proof -
    have "?c - 1 < ?c" using c0 by simp
    then have "\<not> t1 \<le> g (?c - 1)" by (rule not_less_Least)
    then show ?thesis by simp
  qed
  show "(0 < i \<and> g (i - 1) < t1 \<and> t1 \<le> g i) \<longleftrightarrow> i = ?c"
  proof
    assume h: "0 < i \<and> g (i - 1) < t1 \<and> t1 \<le> g i"
    then have "?c \<le> i" by (intro Least_le) simp
    moreover have "\<not> ?c < i"
    proof
      assume "?c < i"
      then have "?c \<le> i - 1" by simp
      then have "g ?c \<le> g (i - 1)" by (rule mono)
      with h Pc show False by simp
    qed
    ultimately show "i = ?c" by simp
  next
    assume "i = ?c"
    then show "0 < i \<and> g (i - 1) < t1 \<and> t1 \<le> g i"
      using c0 below Pc by simp
  qed
qed


lemma crossing_step_fl_iff:
  fixes T t1 :: real
  assumes rnd: "mono rnd" "rnd 0 = 0" "rnd 1 = 1" "rnd T = T"
    and v: "0 < T" "0 < n" "0 < t1" "t1 < T"
  shows "crossing_step_fl rnd (Fin T) n (Fin t1) i \<longleftrightarrow>
         i = (LEAST j. t1 \<le> rnd (rnd (real j / real n) * T))"
    and "(0 < i \<and> grid_time_fl rnd (Fin T) n (i - 1) < Fin t1 \<and>
          Fin t1 \<le> grid_time_fl rnd (Fin T) n i) \<longleftrightarrow>
         i = (LEAST j. t1 \<le> rnd (rnd (real j / real n) * T))"
proof -
  show b: "(0 < i \<and> grid_time_fl rnd (Fin T) n (i - 1) < Fin t1 \<and>
          Fin t1 \<le> grid_time_fl rnd (Fin T) n i) \<longleftrightarrow>
         i = (LEAST j. t1 \<le> rnd (rnd (real j / real n) * T))"
    unfolding grid_time_fl_Fin [OF v(2)] less_jsnum.simps less_eq_jsnum.simps
    by (rule crossing_fl_index(1) [OF rnd v])
  show "crossing_step_fl rnd (Fin T) n (Fin t1) i \<longleftrightarrow>
         i = (LEAST j. t1 \<le> rnd (rnd (real j / real n) * T))"
    using b crossing_fl_index(2) [OF rnd v] unfolding crossing_step_fl_def by blast
qed

lemma sample_body_fl_unload:
  fixes T t1 :: real
  assumes rnd: "mono rnd" "rnd 0 = 0" "rnd 1 = 1" "rnd T = T"
    and v: "0 < T" "0 < n" "0 < t1" "t1 < T"
  shows "sample_body_fl rnd R m d (Fin T) n (Some (Fin t1)) i [] =
    (if i = (LEAST j. t1 \<le> rnd (rnd (real j / real n) * T)) then
       [\<lparr>pt_t = toFixed6 (Fin t1), pt_value = toFixed6 (R (Fin t1)), pt_load = m\<rparr>,
        \<lparr>pt_t = toFixed6 (Fin t1), pt_value = toFixed6 (fl rnd (R (Fin t1) - d)), pt_load = 0\<rparr>] @
       (if \<bar>fl rnd (grid_time_fl rnd (Fin T) n i - Fin t1)\<bar>
             < fl rnd (fl rnd (Fin T / Fin (real n)) * Fin (1 / 2)) then []
        else [regular_point_fl rnd R m (Some (Fin t1)) (grid_time_fl rnd (Fin T) n i)])
     else [regular_point_fl rnd R m (Some (Fin t1)) (grid_time_fl rnd (Fin T) n i)])"
  unfolding sample_body_fl_def Let_def option.case crossing_step_fl_iff(2) [OF rnd v]
  by simp

lemma sample_loop_fl_unload:
  fixes T t1 :: real
  assumes rnd: "mono rnd" "rnd 0 = 0" "rnd 1 = 1" "rnd T = T"
    and v: "0 < T" "0 < n" "0 < t1" "t1 < T"
    and c: "crossing_step_fl rnd (Fin T) n (Fin t1) c"
  shows "sample_loop_fl rnd R m d (Fin T) n (Some (Fin t1)) 0 [] =
     unload_series_fl rnd R m d (Fin T) n (Fin t1) c"
proof -
  let ?step = "\<lambda>j. sample_body_fl rnd R m d (Fin T) n (Some (Fin t1)) j []"
  let ?reg = "\<lambda>i. regular_point_fl rnd R m (Some (Fin t1)) (grid_time_fl rnd (Fin T) n i)"
  have ceq: "c = (LEAST j. t1 \<le> rnd (rnd (real j / real n) * T))"
    using c crossing_step_fl_iff(1) [OF rnd v] by simp
  have cn: "c \<le> n"
    using c by (simp add: crossing_step_fl_def)
  have split: "[0..<Suc n] = [0..<c] @ c # [Suc c..<Suc n]"
  proof -
    have "[0..<c + (Suc n - c)] = [0..<c] @ [c..<c + (Suc n - c)]"
      by (rule upt_add_eq_append) simp
    moreover have "[c..<Suc n] = c # [Suc c..<Suc n]"
      using cn by (intro upt_conv_Cons) simp
    ultimately show ?thesis using cn by simp
  qed
  have other: "\<And>j. j \<noteq> c \<Longrightarrow> ?step j = [?reg j]"
    unfolding ceq by (subst sample_body_fl_unload [OF rnd v]) simp
  have before: "map ?step [0..<c] = map (\<lambda>j. [?reg j]) [0..<c]"
    by (rule map_cong) (auto simp: other)
  have after: "map ?step [Suc c..<Suc n] = map (\<lambda>j. [?reg j]) [Suc c..<Suc n]"
    by (rule map_cong) (auto simp: other)
  have at: "?step c =
       [\<lparr>pt_t = toFixed6 (Fin t1), pt_value = toFixed6 (R (Fin t1)), pt_load = m\<rparr>,
        \<lparr>pt_t = toFixed6 (Fin t1), pt_value = toFixed6 (fl rnd (R (Fin t1) - d)), pt_load = 0\<rparr>] @
       (if \<bar>fl rnd (grid_time_fl rnd (Fin T) n c - Fin t1)\<bar>
             < fl rnd (fl rnd (Fin T / Fin (real n)) * Fin (1 / 2)) then []
        else [?reg c])"
    unfolding ceq by (subst sample_body_fl_unload [OF rnd v]) simp
  have "sample_loop_fl rnd R m d (Fin T) n (Some (Fin t1)) 0 [] = concat (map ?step [0..<Suc n])"
    by (simp only: sample_loop_fl_eq append_Nil)
  also have "\<dots> = concat (map ?step [0..<c]) @ ?step c @ concat (map ?step [Suc c..<Suc n])"
    unfolding split by simp
  also have "\<dots> = unload_series_fl rnd R m d (Fin T) n (Fin t1) c"
    unfolding before after at concat_map_singleton unload_series_fl_def by simp
  finally show ?thesis .
qed

lemma regular_point_fl_superposed:
  "regular_point_fl rnd R m (Some (Fin t1)) (Fin x) = superposed_point_fl rnd R m (Fin t1) (Fin x)"
  by (auto simp: regular_point_fl_def superposed_point_fl_def)

lemma unload_series_fl_regular:
  fixes T t1 :: real
  assumes "0 < n" and c: "crossing_step_fl rnd (Fin T) n (Fin t1) c"
  shows "unload_series_fl rnd R m d (Fin T) n (Fin t1) c =
     map (\<lambda>i. superposed_point_fl rnd R m (Fin t1) (grid_time_fl rnd (Fin T) n i)) [0..<c] @
     [\<lparr>pt_t = toFixed6 (Fin t1), pt_value = toFixed6 (R (Fin t1)), pt_load = m\<rparr>,
      \<lparr>pt_t = toFixed6 (Fin t1), pt_value = toFixed6 (fl rnd (R (Fin t1) - d)), pt_load = 0\<rparr>] @
     map (\<lambda>i. superposed_point_fl rnd R m (Fin t1) (grid_time_fl rnd (Fin T) n i))
       [(if \<bar>fl rnd (grid_time_fl rnd (Fin T) n c - Fin t1)\<bar>
              < fl rnd (fl rnd (Fin T / Fin (real n)) * Fin (1 / 2))
         then Suc c else c)..<Suc n]"
proof -
  have r: "\<And>i. regular_point_fl rnd R m (Some (Fin t1)) (grid_time_fl rnd (Fin T) n i) =
      superposed_point_fl rnd R m (Fin t1) (grid_time_fl rnd (Fin T) n i)"
    unfolding grid_time_fl_Fin [OF assms(1)] by (rule regular_point_fl_superposed)
  have "c \<le> n"
    using c by (simp add: crossing_step_fl_def)
  then have u: "[c..<Suc n] = c # [Suc c..<Suc n]"
    by (intro upt_conv_Cons) simp
  show ?thesis
    unfolding unload_series_fl_def r
    by (cases "\<bar>fl rnd (grid_time_fl rnd (Fin T) n c - Fin t1)\<bar>
                 < fl rnd (fl rnd (Fin T / Fin (real n)) * Fin (1 / 2))")
      (simp_all only: if_True if_False u list.map append_Nil append_Cons)
qed

lemma crossing_step_fl_ex1:
  fixes T t1 :: real
  assumes "mono rnd" "rnd 0 = 0" "rnd 1 = 1" "rnd T = T" "0 < T" "0 < n" "0 < t1" "t1 < T"
  shows "\<exists>!c. crossing_step_fl rnd (Fin T) n (Fin t1) c"
  by (simp only: crossing_step_fl_iff(1) [OF assms] ex1_eq)

text \<open>With no rounding the sampler is the exact one.\<close>

lemma fl_id: "fl (\<lambda>x. x) y = y"
  by (cases y) (simp_all add: fl_def)

lemma sample_body_fl_id:
  "sample_body_fl (\<lambda>x. x) R m d T n tr i data = sample_body R m d T n tr i data"
  unfolding sample_body_fl_def sample_body_def grid_time_fl_def grid_time_def
    regular_point_fl_def regular_point_def fl_id ..

lemma sample_loop_fl_id:
  "sample_loop_fl (\<lambda>x. x) R m d T n tr i data = sample_loop R m d T n tr i data"
  by (simp only: sample_loop_fl_eq sample_loop_eq sample_body_fl_id)

text \<open>
  C3: with an unload time \<open>0 < t1 < tMax\<close>, the output of \<open>computeCreep\<close> and of
  \<open>computeRelaxation\<close> is the list of the regular grid points, with two points
  put in at the crossing step \<open>c\<close> (and the regular point of step \<open>c\<close> left out
  when it is suppressed); the regular point at grid time \<open>t \<le> t1\<close> has the value
  \<open>R(t)\<close> and the full load, the one at \<open>t > t1\<close> the value
  \<open>R(t) - R(t - t1)\<close> and load \<open>0\<close>, the time and the value rounded to 6 decimal
  digits. The grid times, the crossing step and the suppression test are the
  computed ones: the statement holds for every rounding \<open>rnd\<close> that is monotone and
  leaves \<open>0\<close>, \<open>1\<close> and \<open>tMax\<close> unchanged.
\<close>

theorem unload_regular_points:
  fixes T t1 :: real
  assumes "mono rnd" and "rnd 0 = 0" and "rnd 1 = 1" and "rnd T = T"
    and "0 < T" and "0 < nPoints" and "0 < t1" and "t1 < T"
    and "crossing_step_fl rnd (Fin T) nPoints (Fin t1) c"
  shows "(\<exists>s1 s2. computeCreep_fl rnd model (Fin T) nPoints sigma0 (Some (Fin t1)) =
            map (\<lambda>i. superposed_point_fl rnd (\<lambda>t. creepAtTime model t sigma0) sigma0 (Fin t1)
                        (grid_time_fl rnd (Fin T) nPoints i)) [0..<c] @
            [s1, s2] @
            map (\<lambda>i. superposed_point_fl rnd (\<lambda>t. creepAtTime model t sigma0) sigma0 (Fin t1)
                        (grid_time_fl rnd (Fin T) nPoints i))
              [(if \<bar>fl rnd (grid_time_fl rnd (Fin T) nPoints c - Fin t1)\<bar>
                     < fl rnd (fl rnd (Fin T / Fin (real nPoints)) * Fin (1 / 2))
                then Suc c else c)..<Suc nPoints]) \<and>
         (\<exists>s1 s2. computeRelaxation_fl rnd model (Fin T) nPoints eps0 (Some (Fin t1)) =
            map (\<lambda>i. superposed_point_fl rnd (\<lambda>t. relaxAtTime model t eps0) eps0 (Fin t1)
                        (grid_time_fl rnd (Fin T) nPoints i)) [0..<c] @
            [s1, s2] @
            map (\<lambda>i. superposed_point_fl rnd (\<lambda>t. relaxAtTime model t eps0) eps0 (Fin t1)
                        (grid_time_fl rnd (Fin T) nPoints i))
              [(if \<bar>fl rnd (grid_time_fl rnd (Fin T) nPoints c - Fin t1)\<bar>
                     < fl rnd (fl rnd (Fin T / Fin (real nPoints)) * Fin (1 / 2))
                then Suc c else c)..<Suc nPoints])"
  unfolding computeCreep_fl_def computeRelaxation_fl_def Let_def
    sample_loop_fl_unload [OF assms] unload_series_fl_regular [OF assms(6,9)]
  by blast

text \<open>
  An instance with a rounding coarse enough to be seen: \<open>rnd\<close> rounds to the nearest
  multiple of \<open>1/4\<close>, \<open>tMax = 2\<close>, \<open>nPoints = 3\<close>, \<open>t1 = 0.6\<close>. The computed
  grid times are \<open>0, 0.5, 1.5, 2\<close>, so the crossing step is 2, where exact
  arithmetic (grid times \<open>0, 2/3, 4/3, 2\<close>) has it at step 1.
\<close>

theorem unload_regular_points_witness:
  "mono (\<lambda>x::real. real_of_int \<lfloor>4 * x + 1 / 2\<rfloor> / 4) \<and>
   real_of_int \<lfloor>4 * 0 + 1 / 2 :: real\<rfloor> / 4 = (0::real) \<and>
   real_of_int \<lfloor>4 * 1 + 1 / 2 :: real\<rfloor> / 4 = (1::real) \<and>
   real_of_int \<lfloor>4 * 2 + 1 / 2 :: real\<rfloor> / 4 = (2::real) \<and>
   (0::real) < 2 \<and> (0::nat) < 3 \<and> (0::real) < 3 / 5 \<and> (3 / 5 :: real) < 2 \<and>
   crossing_step_fl (\<lambda>x::real. real_of_int \<lfloor>4 * x + 1 / 2\<rfloor> / 4) (Fin 2) 3 (Fin (3 / 5)) 2 \<and>
   (\<exists>s1 s2. computeCreep_fl (\<lambda>x::real. real_of_int \<lfloor>4 * x + 1 / 2\<rfloor> / 4) (Series [Spring (Fin 100), Dashpot (Fin 50)]) (Fin 2) 3 (Fin 1) (Some (Fin (3 / 5))) =
      [superposed_point_fl (\<lambda>x::real. real_of_int \<lfloor>4 * x + 1 / 2\<rfloor> / 4)
         (\<lambda>t. creepAtTime (Series [Spring (Fin 100), Dashpot (Fin 50)]) t (Fin 1))
         (Fin 1) (Fin (3 / 5)) (Fin 0),
       superposed_point_fl (\<lambda>x::real. real_of_int \<lfloor>4 * x + 1 / 2\<rfloor> / 4)
         (\<lambda>t. creepAtTime (Series [Spring (Fin 100), Dashpot (Fin 50)]) t (Fin 1))
         (Fin 1) (Fin (3 / 5)) (Fin (1 / 2)),
       s1, s2,
       superposed_point_fl (\<lambda>x::real. real_of_int \<lfloor>4 * x + 1 / 2\<rfloor> / 4)
         (\<lambda>t. creepAtTime (Series [Spring (Fin 100), Dashpot (Fin 50)]) t (Fin 1))
         (Fin 1) (Fin (3 / 5)) (Fin (3 / 2)),
       superposed_point_fl (\<lambda>x::real. real_of_int \<lfloor>4 * x + 1 / 2\<rfloor> / 4)
         (\<lambda>t. creepAtTime (Series [Spring (Fin 100), Dashpot (Fin 50)]) t (Fin 1))
         (Fin 1) (Fin (3 / 5)) (Fin 2)])"
proof -
  have m: "mono (\<lambda>x::real. real_of_int \<lfloor>4 * x + 1 / 2\<rfloor> / 4)"
  proof (rule monoI)
    fix x y :: real assume "x \<le> y"
    then have "\<lfloor>4 * x + 1 / 2\<rfloor> \<le> \<lfloor>4 * y + 1 / 2\<rfloor>"
      by (intro floor_mono) simp
    then show "real_of_int \<lfloor>4 * x + 1 / 2\<rfloor> / 4 \<le> real_of_int \<lfloor>4 * y + 1 / 2\<rfloor> / 4"
      by simp
  qed
  have q: "real_of_int \<lfloor>4 * 0 + 1 / 2 :: real\<rfloor> / 4 = (0::real)"
    "real_of_int \<lfloor>4 * 1 + 1 / 2 :: real\<rfloor> / 4 = (1::real)"
    "real_of_int \<lfloor>4 * 2 + 1 / 2 :: real\<rfloor> / 4 = (2::real)"
    by simp_all
  have h: "(0::real) < 2" "(0::nat) < 3" "(0::real) < 3 / 5" "(3 / 5 :: real) < 2"
    by simp_all
  have c: "crossing_step_fl (\<lambda>x::real. real_of_int \<lfloor>4 * x + 1 / 2\<rfloor> / 4) (Fin 2) 3 (Fin (3 / 5)) 2"
    by (simp add: crossing_step_fl_def grid_time_fl_def fl_def)
  from unload_regular_points [OF m q h c, of "Series [Spring (Fin 100), Dashpot (Fin 50)]" "Fin 1" "Fin 1"]
  have "\<exists>s1 s2. computeCreep_fl (\<lambda>x::real. real_of_int \<lfloor>4 * x + 1 / 2\<rfloor> / 4) (Series [Spring (Fin 100), Dashpot (Fin 50)]) (Fin 2) 3 (Fin 1) (Some (Fin (3 / 5))) =
      [superposed_point_fl (\<lambda>x::real. real_of_int \<lfloor>4 * x + 1 / 2\<rfloor> / 4)
         (\<lambda>t. creepAtTime (Series [Spring (Fin 100), Dashpot (Fin 50)]) t (Fin 1))
         (Fin 1) (Fin (3 / 5)) (Fin 0),
       superposed_point_fl (\<lambda>x::real. real_of_int \<lfloor>4 * x + 1 / 2\<rfloor> / 4)
         (\<lambda>t. creepAtTime (Series [Spring (Fin 100), Dashpot (Fin 50)]) t (Fin 1))
         (Fin 1) (Fin (3 / 5)) (Fin (1 / 2)),
       s1, s2,
       superposed_point_fl (\<lambda>x::real. real_of_int \<lfloor>4 * x + 1 / 2\<rfloor> / 4)
         (\<lambda>t. creepAtTime (Series [Spring (Fin 100), Dashpot (Fin 50)]) t (Fin 1))
         (Fin 1) (Fin (3 / 5)) (Fin (3 / 2)),
       superposed_point_fl (\<lambda>x::real. real_of_int \<lfloor>4 * x + 1 / 2\<rfloor> / 4)
         (\<lambda>t. creepAtTime (Series [Spring (Fin 100), Dashpot (Fin 50)]) t (Fin 1))
         (Fin 1) (Fin (3 / 5)) (Fin 2)]"
    by (simp add: grid_time_fl_def fl_def minus_jsnum_def upt_conv_Cons)
  with m q h c show ?thesis
    by blast
qed

text \<open>
  C4, as the code has it: with an unload time \<open>0 < t1 < tMax\<close> there is exactly one
  grid step \<open>c\<close> with the previous (computed) grid time \<open>< t1 \<le>\<close> the current
  one. The output is the regular points of the steps before \<open>c\<close>, then two points
  stamped \<open>t1\<close> (rounded to 6 decimal digits): the value \<open>R(t1)\<close> under the full
  load, then \<open>R(t1) - instantDrop\<close> under load \<open>0\<close> (both rounded), then the
  regular point of step \<open>c\<close> unless the computed \<open>|t\<^sub>c - t1|\<close> is below the
  computed \<open>(tMax/nPoints)\<cdot>0.5\<close>, then the regular points of the later steps. With
  \<open>Z\<close> the impedance at \<open>s = 1e15\<close>, \<open>instantDrop\<close> is \<open>\<sigma>\<^sub>0 / Z\<close>, or \<open>0\<close>
  when \<open>Z = 0\<close>, for creep, and \<open>\<epsilon>\<^sub>0 \<cdot> Z\<close> for relaxation. The statement holds
  for every rounding \<open>rnd\<close> that is monotone and leaves \<open>0\<close>, \<open>1\<close> and \<open>tMax\<close>
  unchanged.
\<close>

theorem unload_injected_points:
  fixes T t1 :: real
  assumes "mono rnd" and "rnd 0 = 0" and "rnd 1 = 1" and "rnd T = T"
    and "0 < T" and "0 < nPoints" and "0 < t1" and "t1 < T"
  shows "(\<exists>!c. crossing_step_fl rnd (Fin T) nPoints (Fin t1) c) \<and>
    (\<forall>c. crossing_step_fl rnd (Fin T) nPoints (Fin t1) c \<longrightarrow>
       computeCreep_fl rnd model (Fin T) nPoints sigma0 (Some (Fin t1)) =
         unload_series_fl rnd (\<lambda>t. creepAtTime model t sigma0) sigma0
           (if impedance model (Fin (10 ^ 15)) = 0 then 0
            else sigma0 / impedance model (Fin (10 ^ 15)))
           (Fin T) nPoints (Fin t1) c \<and>
       computeRelaxation_fl rnd model (Fin T) nPoints eps0 (Some (Fin t1)) =
         unload_series_fl rnd (\<lambda>t. relaxAtTime model t eps0) eps0
           (eps0 * impedance model (Fin (10 ^ 15)))
           (Fin T) nPoints (Fin t1) c)"
proof (intro conjI allI impI)
  show "\<exists>!c. crossing_step_fl rnd (Fin T) nPoints (Fin t1) c"
    by (rule crossing_step_fl_ex1 [OF assms])
next
  fix c assume c: "crossing_step_fl rnd (Fin T) nPoints (Fin t1) c"
  show "computeCreep_fl rnd model (Fin T) nPoints sigma0 (Some (Fin t1)) =
         unload_series_fl rnd (\<lambda>t. creepAtTime model t sigma0) sigma0
           (if impedance model (Fin (10 ^ 15)) = 0 then 0
            else sigma0 / impedance model (Fin (10 ^ 15)))
           (Fin T) nPoints (Fin t1) c"
    unfolding computeCreep_fl_def Let_def sample_loop_fl_unload [OF assms c]
    by (simp add: instantElasticStrain_def Let_def)
  show "computeRelaxation_fl rnd model (Fin T) nPoints eps0 (Some (Fin t1)) =
         unload_series_fl rnd (\<lambda>t. relaxAtTime model t eps0) eps0
           (eps0 * impedance model (Fin (10 ^ 15)))
           (Fin T) nPoints (Fin t1) c"
    unfolding computeRelaxation_fl_def Let_def sample_loop_fl_unload [OF assms c]
    by (simp add: instantElasticStress_def Let_def)
qed

text \<open>
  An instance with a rounding coarse enough to be seen: \<open>rnd\<close> rounds to the nearest
  multiple of \<open>1/4\<close>, \<open>tMax = 2\<close>, \<open>nPoints = 3\<close>, \<open>t1 = 0.6\<close>. The computed
  grid times are \<open>0, 0.5, 1.5, 2\<close>, so the crossing step is 2, where exact
  arithmetic (grid times \<open>0, 2/3, 4/3, 2\<close>) has it at step 1.
\<close>

theorem unload_injected_points_witness:
  "mono (\<lambda>x::real. real_of_int \<lfloor>4 * x + 1 / 2\<rfloor> / 4) \<and>
   real_of_int \<lfloor>4 * 0 + 1 / 2 :: real\<rfloor> / 4 = (0::real) \<and>
   real_of_int \<lfloor>4 * 1 + 1 / 2 :: real\<rfloor> / 4 = (1::real) \<and>
   real_of_int \<lfloor>4 * 2 + 1 / 2 :: real\<rfloor> / 4 = (2::real) \<and>
   (0::real) < 2 \<and> (0::nat) < 3 \<and> (0::real) < 3 / 5 \<and> (3 / 5 :: real) < 2 \<and>
   crossing_step_fl (\<lambda>x::real. real_of_int \<lfloor>4 * x + 1 / 2\<rfloor> / 4) (Fin 2) 3 (Fin (3 / 5)) 2 \<and>
   computeCreep_fl (\<lambda>x::real. real_of_int \<lfloor>4 * x + 1 / 2\<rfloor> / 4) (Series [Spring (Fin 100), Dashpot (Fin 50)]) (Fin 2) 3 (Fin 1) (Some (Fin (3 / 5))) =
     unload_series_fl (\<lambda>x::real. real_of_int \<lfloor>4 * x + 1 / 2\<rfloor> / 4)
       (\<lambda>t. creepAtTime (Series [Spring (Fin 100), Dashpot (Fin 50)]) t (Fin 1)) (Fin 1)
       (if impedance (Series [Spring (Fin 100), Dashpot (Fin 50)]) (Fin (10 ^ 15)) = 0 then 0
        else Fin 1 / impedance (Series [Spring (Fin 100), Dashpot (Fin 50)]) (Fin (10 ^ 15)))
       (Fin 2) 3 (Fin (3 / 5)) 2 \<and>
   length (computeCreep_fl (\<lambda>x::real. real_of_int \<lfloor>4 * x + 1 / 2\<rfloor> / 4) (Series [Spring (Fin 100), Dashpot (Fin 50)]) (Fin 2) 3 (Fin 1) (Some (Fin (3 / 5)))) = 6"
proof -
  have m: "mono (\<lambda>x::real. real_of_int \<lfloor>4 * x + 1 / 2\<rfloor> / 4)"
  proof (rule monoI)
    fix x y :: real assume "x \<le> y"
    then have "\<lfloor>4 * x + 1 / 2\<rfloor> \<le> \<lfloor>4 * y + 1 / 2\<rfloor>"
      by (intro floor_mono) simp
    then show "real_of_int \<lfloor>4 * x + 1 / 2\<rfloor> / 4 \<le> real_of_int \<lfloor>4 * y + 1 / 2\<rfloor> / 4"
      by simp
  qed
  have q: "real_of_int \<lfloor>4 * 0 + 1 / 2 :: real\<rfloor> / 4 = (0::real)"
    "real_of_int \<lfloor>4 * 1 + 1 / 2 :: real\<rfloor> / 4 = (1::real)"
    "real_of_int \<lfloor>4 * 2 + 1 / 2 :: real\<rfloor> / 4 = (2::real)"
    by simp_all
  have h: "(0::real) < 2" "(0::nat) < 3" "(0::real) < 3 / 5" "(3 / 5 :: real) < 2"
    by simp_all
  have c: "crossing_step_fl (\<lambda>x::real. real_of_int \<lfloor>4 * x + 1 / 2\<rfloor> / 4) (Fin 2) 3 (Fin (3 / 5)) 2"
    by (simp add: crossing_step_fl_def grid_time_fl_def fl_def)
  from unload_injected_points [OF m q h, of "Series [Spring (Fin 100), Dashpot (Fin 50)]" "Fin 1" "Fin 1"] c
  have e: "computeCreep_fl (\<lambda>x::real. real_of_int \<lfloor>4 * x + 1 / 2\<rfloor> / 4) (Series [Spring (Fin 100), Dashpot (Fin 50)]) (Fin 2) 3 (Fin 1) (Some (Fin (3 / 5))) =
     unload_series_fl (\<lambda>x::real. real_of_int \<lfloor>4 * x + 1 / 2\<rfloor> / 4)
       (\<lambda>t. creepAtTime (Series [Spring (Fin 100), Dashpot (Fin 50)]) t (Fin 1)) (Fin 1)
       (if impedance (Series [Spring (Fin 100), Dashpot (Fin 50)]) (Fin (10 ^ 15)) = 0 then 0
        else Fin 1 / impedance (Series [Spring (Fin 100), Dashpot (Fin 50)]) (Fin (10 ^ 15)))
       (Fin 2) 3 (Fin (3 / 5)) 2"
    by blast
  have "length (computeCreep_fl (\<lambda>x::real. real_of_int \<lfloor>4 * x + 1 / 2\<rfloor> / 4) (Series [Spring (Fin 100), Dashpot (Fin 50)]) (Fin 2) 3 (Fin 1) (Some (Fin (3 / 5)))) = 6"
    unfolding e by (simp add: unload_series_fl_def grid_time_fl_def fl_def minus_jsnum_def)
  with m q h c e show ?thesis
    by blast
qed

text \<open>
  The claim C4 as the specification states it, with \<open>instantDrop = \<sigma>\<^sub>0 / Z\<close> for
  creep, fails where \<open>Z = 0\<close>: for a series node over a spring of modulus
  \<open>1e-31\<close> the impedance at \<open>1e15\<close> is \<open>0\<close>, \<open>\<sigma>\<^sub>0 / Z\<close> is \<open>+\<infinity>\<close> and
  \<open>instantDrop\<close> is \<open>0\<close>; with \<open>tMax = 2\<close>, \<open>nPoints = 2\<close> and \<open>t1 = 0.5\<close>
  the second injected point (index 2) has the value \<open>R(t1) - 0\<close> rounded, which is
  finite, not \<open>R(t1) - \<sigma>\<^sub>0 / Z\<close>.
\<close>

theorem instantDrop_guard_counterexample:
  "instantElasticStrain (Series [Spring (Fin (1 / 10 ^ 31))]) (Fin 1) = 0 \<and>
   Fin 1 / impedance (Series [Spring (Fin (1 / 10 ^ 31))]) (Fin (10 ^ 15)) = PInf \<and>
   pt_value (computeCreep (Series [Spring (Fin (1 / 10 ^ 31))]) (Fin 2) 2 (Fin 1) (Some (Fin (1 / 2))) ! 2)
     = toFixed6 (creepAtTime (Series [Spring (Fin (1 / 10 ^ 31))]) (Fin (1 / 2)) (Fin 1) - 0) \<and>
   pt_value (computeCreep (Series [Spring (Fin (1 / 10 ^ 31))]) (Fin 2) 2 (Fin 1) (Some (Fin (1 / 2))) ! 2)
     \<noteq> creepAtTime (Series [Spring (Fin (1 / 10 ^ 31))]) (Fin (1 / 2)) (Fin 1)
          - Fin 1 / impedance (Series [Spring (Fin (1 / 10 ^ 31))]) (Fin (10 ^ 15))"
proof -
  let ?M = "Series [Spring (Fin (1 / 10 ^ 31))]"
  have z: "\<And>s. impedance ?M s = 0"
    by (simp add: tiny_def Let_def)
  have d: "instantElasticStrain ?M (Fin 1) = 0"
    unfolding instantElasticStrain_def z by simp
  have q: "Fin 1 / impedance ?M (Fin (10 ^ 15)) = PInf"
    unfolding z by (simp add: zero_jsnum_def)
  have F: "creep_F ?M (Fin 1) = (\<lambda>s. Fin (10 ^ 30))"
    unfolding creep_F_def z by simp
  have "creepAtTime ?M (Fin (1 / 2)) (Fin 1) = inverseLaplace (\<lambda>s. Fin (10 ^ 30)) (Fin (1 / 2))"
    unfolding creepAtTime_def F by (simp add: zero_jsnum_def)
  with inverseLaplace_const_finite [of "1 / 2" "10 ^ 30"]
  obtain x where r: "creepAtTime ?M (Fin (1 / 2)) (Fin 1) = Fin x"
    by auto
  have c: "crossing_step (Fin 2) 2 (Fin (1 / 2)) 1"
    by (simp add: crossing_step_def grid_time_def)
  have "computeCreep ?M (Fin 2) 2 (Fin 1) (Some (Fin (1 / 2))) =
      unload_series (\<lambda>t. creepAtTime ?M t (Fin 1)) (Fin 1) 0 (Fin 2) 2 (Fin (1 / 2)) 1"
    unfolding computeCreep_def Let_def d
    by (rule sample_loop_unload [OF _ _ _ _ c]) simp_all
  then have v: "pt_value (computeCreep ?M (Fin 2) 2 (Fin 1) (Some (Fin (1 / 2))) ! 2)
      = toFixed6 (creepAtTime ?M (Fin (1 / 2)) (Fin 1) - 0)"
    by (simp add: unload_series_def)
  have "toFixed6 (Fin x - 0) \<noteq> Fin x - PInf"
    by (simp add: zero_jsnum_def minus_jsnum_def toFixed6.simps)
  then show ?thesis
    using d q v unfolding r q by simp
qed

text \<open>
  C9: for a valid input (\<open>tMax > 0\<close>, \<open>nPoints \<ge> 1\<close>), without an unload time or
  with \<open>0 < t1 < tMax\<close>, the \<open>t\<close> fields of the points emitted by
  \<open>computeCreep\<close> and by \<open>computeRelaxation\<close> are non-decreasing from the first
  point to the last, the two points stamped \<open>t1\<close> included.
\<close>

theorem sampled_times_nondecreasing:
  fixes T :: real
  assumes "0 < T" and "0 < nPoints"
    and "tRemoval = None \<or> (\<exists>t1. tRemoval = Some (Fin t1) \<and> 0 < t1 \<and> t1 < T)"
  shows "sorted_wrt (\<le>) (map pt_t (computeCreep model (Fin T) nPoints sigma0 tRemoval)) \<and>
         sorted_wrt (\<le>) (map pt_t (computeRelaxation model (Fin T) nPoints eps0 tRemoval))"
  unfolding computeCreep_def computeRelaxation_def Let_def
  by (intro conjI sample_loop_sorted assms)

theorem sampled_times_nondecreasing_witness:
  "(0::real) < 10 \<and> (0::nat) < 200 \<and>
   sorted_wrt (\<le>) (map pt_t (computeCreep (Series [Spring (Fin 100), Dashpot (Fin 50)])
     (Fin 10) 200 (Fin 1) None)) \<and>
   sorted_wrt (\<le>) (map pt_t (computeCreep (Series [Spring (Fin 100), Dashpot (Fin 50)])
     (Fin 10) 200 (Fin 1) (Some (Fin 5)))) \<and>
   sorted_wrt (\<le>) (map pt_t (computeRelaxation (Series [Spring (Fin 100), Dashpot (Fin 50)])
     (Fin 10) 200 (Fin 1) (Some (Fin 5))))"
proof -
  have h: "(0::real) < 10" "(0::nat) < 200"
    by simp_all
  have a: "(None :: jsnum option) = None \<or> (\<exists>t1. None = Some (Fin t1) \<and> 0 < t1 \<and> t1 < 10)"
    by simp
  have b: "Some (Fin 5) = None \<or> (\<exists>t1. Some (Fin 5) = Some (Fin t1) \<and> 0 < t1 \<and> t1 < 10)"
    by simp
  from sampled_times_nondecreasing [OF h a] sampled_times_nondecreasing [OF h b] h
  show ?thesis
    by blast
qed

end
